theory Spec2Isabelle
  imports Main "HOL-Library.Char_ord" "HOL-Library.List_Lexorder" "HOL-Library.Sublist"
    "HOL-Library.Word"
begin

section \<open>Go strings and the library functions the counter calls\<close>

text \<open>
  A Go string is a sequence of bytes, here a \<^typ>\<open>string\<close> (a list of 8-bit characters):
  \<open>len\<close> is \<^const>\<open>length\<close>, \<open>s[i]\<close> is \<open>s ! i\<close>. Runes are code points, natural
  numbers. The functions of this section model the parts of Go's \<open>unicode/utf8\<close>,
  \<open>unicode\<close>, \<open>strings\<close> and \<open>regexp\<close> packages that \<open>main.go\<close> calls.
\<close>

definition byte :: "char \<Rightarrow> nat" where
  "byte c = of_char c"

definition RuneError :: nat where
  "RuneError = 0xFFFD"

definition cont :: "char \<Rightarrow> bool" where
  "cont c \<longleftrightarrow> 0x80 \<le> byte c \<and> byte c \<le> 0xBF"

text \<open>
  \<open>utf8.DecodeRuneInString\<close>: the first rune of a string and its width in bytes. A byte
  that starts no well-formed encoding decodes to \<open>RuneError\<close> with width 1; the second byte
  of a three- or four-byte form is checked against the accept range of its first byte.
\<close>

definition second_ok :: "nat \<Rightarrow> char \<Rightarrow> bool" where
  "second_ok b0 c1 =
     (let b1 = byte c1 in
      if b0 = 0xE0 then 0xA0 \<le> b1 \<and> b1 \<le> 0xBF
      else if b0 = 0xED then 0x80 \<le> b1 \<and> b1 \<le> 0x9F
      else if b0 = 0xF0 then 0x90 \<le> b1 \<and> b1 \<le> 0xBF
      else if b0 = 0xF4 then 0x80 \<le> b1 \<and> b1 \<le> 0x8F
      else 0x80 \<le> b1 \<and> b1 \<le> 0xBF)"

fun DecodeRuneInString :: "string \<Rightarrow> nat \<times> nat" where
  "DecodeRuneInString [] = (RuneError, 0)"
| "DecodeRuneInString (c0 # s) =
     (let b0 = byte c0 in
      if b0 < 0x80 then (b0, 1)
      else if 0xC2 \<le> b0 \<and> b0 \<le> 0xDF then
        (case s of
           c1 # _ \<Rightarrow>
             if second_ok b0 c1 then ((b0 mod 0x20) * 0x40 + byte c1 mod 0x40, 2)
             else (RuneError, 1)
         | _ \<Rightarrow> (RuneError, 1))
      else if 0xE0 \<le> b0 \<and> b0 \<le> 0xEF then
        (case s of
           c1 # c2 # _ \<Rightarrow>
             if second_ok b0 c1 \<and> cont c2
             then ((b0 mod 0x10) * 0x1000 + (byte c1 mod 0x40) * 0x40 + byte c2 mod 0x40, 3)
             else (RuneError, 1)
         | _ \<Rightarrow> (RuneError, 1))
      else if 0xF0 \<le> b0 \<and> b0 \<le> 0xF4 then
        (case s of
           c1 # c2 # c3 # _ \<Rightarrow>
             if second_ok b0 c1 \<and> cont c2 \<and> cont c3
             then ((b0 mod 0x08) * 0x40000 + (byte c1 mod 0x40) * 0x1000
                     + (byte c2 mod 0x40) * 0x40 + byte c3 mod 0x40, 4)
             else (RuneError, 1)
         | _ \<Rightarrow> (RuneError, 1))
      else (RuneError, 1))"

lemma DecodeRuneInString_width:
  "DecodeRuneInString (c # s) = (r, w) \<Longrightarrow> 0 < w \<and> w \<le> Suc (length s)"
  by (auto simp: Let_def split: if_splits list.splits)

text \<open>
  \<open>utf8.DecodeLastRuneInString\<close>: the last rune of a string. It looks back over at most
  four bytes for a byte that can start a rune, decodes from there, and answers
  \<open>RuneError\<close> with width 1 unless that rune ends exactly at the end of the string.
\<close>

definition RuneStart :: "char \<Rightarrow> bool" where
  "RuneStart c \<longleftrightarrow> \<not> cont c"

definition DecodeLastRuneInString :: "string \<Rightarrow> nat \<times> nat" where
  "DecodeLastRuneInString s =
     (let e = length s in
      if e = 0 then (RuneError, 0)
      else if byte (s ! (e - 1)) < 0x80 then (byte (s ! (e - 1)), 1)
      else
        (let lim = e - 4;
             start = (case List.find (\<lambda>i. RuneStart (s ! i)) (rev [lim ..< e - 1]) of
                        Some i \<Rightarrow> i
                      | None \<Rightarrow> lim - 1);
             (r, size) = DecodeRuneInString (drop start s)
         in if start + size \<noteq> e then (RuneError, 1) else (r, size)))"

lemma DecodeLastRuneInString_width:
  assumes ne: "s \<noteq> []" and d: "DecodeLastRuneInString s = (r, w)"
  shows "0 < w \<and> w \<le> length s"
proof (cases "byte (s ! (length s - 1)) < 0x80")
  case True
  with ne d show ?thesis by (cases s) (auto simp: DecodeLastRuneInString_def Let_def)
next
  case False
  define start where
    "start = (case List.find (\<lambda>i. RuneStart (s ! i)) (rev [length s - 4 ..< length s - 1]) of
                Some i \<Rightarrow> i | None \<Rightarrow> length s - 4 - 1)"
  have lt: "start < length s"
  proof (cases "List.find (\<lambda>i. RuneStart (s ! i)) (rev [length s - 4 ..< length s - 1])")
    case None
    with ne show ?thesis by (cases s) (auto simp: start_def)
  next
    case (Some i)
    then have "i \<in> set (rev [length s - 4 ..< length s - 1])"
      by (metis find_Some_iff nth_mem)
    with Some show ?thesis by (auto simp: start_def)
  qed
  obtain r' w' where dd: "DecodeRuneInString (drop start s) = (r', w')"
    by (cases "DecodeRuneInString (drop start s)")
  from lt obtain c t where ct: "drop start s = c # t"
    by (cases "drop start s") auto
  from dd ct have pos: "0 < w'" using DecodeRuneInString_width by metis
  from ne False d dd
  have "(if start + w' \<noteq> length s then (RuneError, 1) else (r', w')) = (r, w)"
    by (simp add: DecodeLastRuneInString_def Let_def start_def)
  then have "w = 1 \<or> (w = w' \<and> start + w' = length s)"
    by (auto split: if_splits)
  with pos ne show ?thesis by (cases s) auto
qed

lemma decode_pos: "(r, w) = DecodeRuneInString (c # s) \<Longrightarrow> 0 < w"
  using DecodeRuneInString_width[of c s r w] by simp

lemma decode_last_bounds:
  "s \<noteq> [] \<Longrightarrow> (r, w) = DecodeLastRuneInString s \<Longrightarrow> 0 < w \<and> w \<le> length s"
  using DecodeLastRuneInString_width[of s r w] by simp

text \<open>
  Ranging over a string (\<open>for _, char := range s\<close>) yields its runes in order, an
  ill-formed byte as \<open>RuneError\<close>.
\<close>

function runes :: "string \<Rightarrow> nat list" where
  "runes [] = []"
| "runes (c # s) =
     (case DecodeRuneInString (c # s) of (r, w) \<Rightarrow> r # runes (drop w (c # s)))"
  by pat_completeness auto
termination
  apply (relation "measure length")
   apply simp
  apply (frule decode_pos)
  apply (simp del: DecodeRuneInString.simps)
  done

text \<open>
  \<open>utf8.AppendRune\<close>, which is also the conversion \<open>string(r)\<close> of a rune: the UTF-8
  encoding of a code point, that of \<open>RuneError\<close> for a surrogate or a value out of range.
\<close>

definition EncodeRune :: "nat \<Rightarrow> string" where
  "EncodeRune r =
     (if r \<le> 0x7F then [char_of r]
      else if r \<le> 0x7FF then [char_of (0xC0 + r div 0x40), char_of (0x80 + r mod 0x40)]
      else if 0x10FFFF < r \<or> (0xD800 \<le> r \<and> r \<le> 0xDFFF) then [CHR 0xEF, CHR 0xBF, CHR 0xBD]
      else if r \<le> 0xFFFF then
        [char_of (0xE0 + r div 0x1000), char_of (0x80 + (r div 0x40) mod 0x40),
         char_of (0x80 + r mod 0x40)]
      else
        [char_of (0xF0 + r div 0x40000), char_of (0x80 + (r div 0x1000) mod 0x40),
         char_of (0x80 + (r div 0x40) mod 0x40), char_of (0x80 + r mod 0x40)])"

text \<open>\<open>unicode.IsSpace\<close>: the Latin-1 white space and the \<open>White_Space\<close> table beyond it.\<close>

definition IsSpace :: "nat \<Rightarrow> bool" where
  "IsSpace r \<longleftrightarrow>
     r = 0x09 \<or> r = 0x0A \<or> r = 0x0B \<or> r = 0x0C \<or> r = 0x0D \<or> r = 0x20 \<or> r = 0x85 \<or> r = 0xA0 \<or>
     r = 0x1680 \<or> (0x2000 \<le> r \<and> r \<le> 0x200A) \<or> r = 0x2028 \<or> r = 0x2029 \<or> r = 0x202F \<or>
     r = 0x205F \<or> r = 0x3000"

text \<open>
  \<open>strings.TrimSpace\<close> removes the white-space runes at both ends: leading runes are
  decoded forwards, trailing runes backwards.
\<close>

function TrimLeftSpace :: "string \<Rightarrow> string" where
  "TrimLeftSpace [] = []"
| "TrimLeftSpace (c # s) =
     (case DecodeRuneInString (c # s) of
        (r, w) \<Rightarrow> if IsSpace r then TrimLeftSpace (drop w (c # s)) else c # s)"
  by pat_completeness auto
termination
  apply (relation "measure length")
   apply simp
  apply (frule decode_pos)
  apply (simp del: DecodeRuneInString.simps)
  done

function TrimRightSpace :: "string \<Rightarrow> string" where
  "TrimRightSpace s =
     (if s = [] then []
      else (case DecodeLastRuneInString s of
              (r, w) \<Rightarrow> if IsSpace r then TrimRightSpace (take (length s - w) s) else s))"
  by pat_completeness auto
termination
  apply (relation "measure length")
   apply simp
  apply (frule (1) decode_last_bounds)
  apply (case_tac s)
   apply simp_all
  done

declare TrimRightSpace.simps [simp del]

definition TrimSpace :: "string \<Rightarrow> string" where
  "TrimSpace s = TrimRightSpace (TrimLeftSpace s)"

text \<open>
  \<open>strings.ToLower\<close> maps \<open>unicode.ToLower\<close> over the runes of the string and encodes the
  results (\<open>strings.Map\<close>), so an ill-formed byte becomes the three bytes of \<open>RuneError\<close>.
  \<open>unicode.ToLower\<close> lowers \<open>A\<close> to \<open>Z\<close> itself and looks every rune above \<open>0x7F\<close> up in the
  table \<open>unicode.CaseRanges\<close>. That table is data of the Go distribution, not of this
  repository: it is the parameter \<open>tab\<close>, the lower-case mapping of the runes above
  \<open>0x7F\<close>.
\<close>

definition unicode_ToLower :: "(nat \<Rightarrow> nat) \<Rightarrow> nat \<Rightarrow> nat" where
  "unicode_ToLower tab r =
     (if r \<le> 0x7F then (if 0x41 \<le> r \<and> r \<le> 0x5A then r + 0x20 else r) else tab r)"

definition Map_runes :: "(nat \<Rightarrow> nat) \<Rightarrow> string \<Rightarrow> string" where
  "Map_runes mapping s = concat (map (\<lambda>c. EncodeRune (mapping c)) (runes s))"

definition ToLower :: "(nat \<Rightarrow> nat) \<Rightarrow> string \<Rightarrow> string" where
  "ToLower tab s = Map_runes (unicode_ToLower tab) s"

text \<open>\<open>strings.HasSuffix\<close>.\<close>

definition HasSuffix :: "string \<Rightarrow> string \<Rightarrow> bool" where
  "HasSuffix s suf \<longleftrightarrow> length suf \<le> length s \<and> drop (length s - length suf) s = suf"

text \<open>
  The byte sequences of the runes of a string, an ill-formed byte on its own.
\<close>

function rune_chunks :: "string \<Rightarrow> string list" where
  "rune_chunks [] = []"
| "rune_chunks (c # s) =
     (case DecodeRuneInString (c # s) of
        (r, w) \<Rightarrow> take w (c # s) # rune_chunks (drop w (c # s)))"
  by pat_completeness auto
termination
  apply (relation "measure length")
   apply simp
  apply (frule decode_pos)
  apply (simp del: DecodeRuneInString.simps)
  done

text \<open>
  \<open>strings.Split\<close>: the pieces of \<open>s\<close> between the occurrences of \<open>sep\<close>, found from the
  left and not overlapping; one piece more than there are occurrences. An empty
  separator splits after each rune.
\<close>

function Split_from :: "string \<Rightarrow> string \<Rightarrow> string \<Rightarrow> string list" where
  "Split_from sep acc [] = [acc]"
| "Split_from sep acc (c # s) =
     (if sep \<noteq> [] \<and> prefix sep (c # s)
      then acc # Split_from sep [] (drop (length sep) (c # s))
      else Split_from sep (acc @ [c]) s)"
  by pat_completeness auto
termination
  by (relation "measure (\<lambda>(sep, acc, s). length s)") auto

definition Split :: "string \<Rightarrow> string \<Rightarrow> string list" where
  "Split s sep = (if sep = [] then rune_chunks s else Split_from sep [] s)"

text \<open>
  \<open>strings.ReplaceAll\<close>: every occurrence of \<open>old\<close>, found from the left and not
  overlapping, is replaced by \<open>new\<close>. An empty \<open>old\<close> matches before every rune and
  at the end of the string.
\<close>

function Replace_from :: "string \<Rightarrow> string \<Rightarrow> string \<Rightarrow> string" where
  "Replace_from old new [] = []"
| "Replace_from old new (c # s) =
     (if old \<noteq> [] \<and> prefix old (c # s)
      then new @ Replace_from old new (drop (length old) (c # s))
      else c # Replace_from old new s)"
  by pat_completeness auto
termination
  by (relation "measure (\<lambda>(old, new, s). length s)") auto

definition ReplaceAll :: "string \<Rightarrow> string \<Rightarrow> string \<Rightarrow> string" where
  "ReplaceAll s old new =
     (if old = new then s
      else if old = [] then new @ concat (map (\<lambda>ch. ch @ new) (rune_chunks s))
      else Replace_from old new s)"

text \<open>
  \<open>strings.Fields\<close>: the maximal runs of runes that are not white space.
\<close>

function Fields_from :: "string \<Rightarrow> string \<Rightarrow> string list" where
  "Fields_from acc [] = (if acc = [] then [] else [acc])"
| "Fields_from acc (c # s) =
     (case DecodeRuneInString (c # s) of
        (r, w) \<Rightarrow>
          if IsSpace r
          then (if acc = [] then Fields_from [] (drop w (c # s))
                else acc # Fields_from [] (drop w (c # s)))
          else Fields_from (acc @ take w (c # s)) (drop w (c # s)))"
  by pat_completeness auto
termination
  apply (relation "measure (\<lambda>(acc, s). length s)")
     apply simp
    apply (frule decode_pos, simp del: DecodeRuneInString.simps)
   apply (frule decode_pos, simp del: DecodeRuneInString.simps)
  apply (frule decode_pos, simp del: DecodeRuneInString.simps)
  done

definition Fields :: "string \<Rightarrow> string list" where
  "Fields s = Fields_from [] s"

text \<open>
  The three regular expressions of \<open>main.go\<close>, each used only through
  \<open>ReplaceAllString(ln, "")\<close>. The first two are negated character classes under \<open>+\<close>:
  deleting every match deletes every rune outside the class. All bytes of a rune above
  \<open>0x7F\<close> and every ill-formed byte are at least \<open>0x80\<close>, so on bytes this is a filter.
\<close>

definition alnum :: "char \<Rightarrow> bool" where
  "alnum c \<longleftrightarrow>
     (CHR ''a'' \<le> c \<and> c \<le> CHR ''z'') \<or> (CHR ''A'' \<le> c \<and> c \<le> CHR ''Z'') \<or>
     (CHR ''0'' \<le> c \<and> c \<le> CHR ''9'')"

definition keepCharsRE_ReplaceAllString :: "string \<Rightarrow> string" where
  "keepCharsRE_ReplaceAllString ln = filter (\<lambda>c. alnum c \<or> c = CHR '' '') ln"

definition keepCharsAndAnglesRE_ReplaceAllString :: "string \<Rightarrow> string" where
  "keepCharsAndAnglesRE_ReplaceAllString ln =
     filter (\<lambda>c. alnum c \<or> c = CHR '' '' \<or> c = CHR ''<'' \<or> c = CHR ''>'') ln"

text \<open>
  \<open>removeHTMLRE\<close> is \<open>" ?</?[a-zA-Z0-9]+> ?"\<close>. \<open>removeHTMLRE_match s\<close> is the rest of
  \<open>s\<close> after the match that starts at its first byte, if there is one. Every choice of
  the expression is forced by the next byte (a blank, a slash and a letter or digit
  are taken when present, and what follows each of them cannot begin with it), so the
  greedy match is the only one.
\<close>

definition skip_char :: "char \<Rightarrow> string \<Rightarrow> string" where
  "skip_char x s = (case s of [] \<Rightarrow> [] | c # t \<Rightarrow> if c = x then t else c # t)"

definition removeHTMLRE_match :: "string \<Rightarrow> string option" where
  "removeHTMLRE_match s =
     (case skip_char (CHR '' '') s of
        [] \<Rightarrow> None
      | c # s2 \<Rightarrow>
          if c \<noteq> CHR ''<'' then None
          else
            (let s3 = skip_char (CHR ''/'') s2 in
             if takeWhile alnum s3 = [] then None
             else
               (case dropWhile alnum s3 of
                  [] \<Rightarrow> None
                | g # s5 \<Rightarrow> if g \<noteq> CHR ''>'' then None else Some (skip_char (CHR '' '') s5))))"

lemma length_skip_char: "length (skip_char x s) \<le> length s"
  by (simp add: skip_char_def split: list.splits)

lemma removeHTMLRE_match_shorter:
  assumes "removeHTMLRE_match s = Some rest"
  shows "length rest < length s"
proof -
  from assms obtain s2 s3 g s5 where
    a: "skip_char (CHR '' '') s = CHR ''<'' # s2" and
    b: "s3 = skip_char (CHR ''/'') s2" and
    c: "dropWhile alnum s3 = g # s5" and
    d: "rest = skip_char (CHR '' '') s5"
    by (auto simp: removeHTMLRE_match_def Let_def split: list.splits if_splits)
  have "length rest \<le> length s5" using d length_skip_char by simp
  also have "\<dots> < length (dropWhile alnum s3)" using c by simp
  also have "\<dots> \<le> length s3" by (rule length_dropWhile_le)
  also have "\<dots> \<le> length s2" using b length_skip_char by simp
  also have "\<dots> < length (skip_char (CHR '' '') s)" using a by simp
  also have "\<dots> \<le> length s" by (rule length_skip_char)
  finally show ?thesis .
qed

text \<open>
  Replacing every match by the empty string: the matches are found from the left,
  a byte where none starts is kept, and the search goes on behind a match.
\<close>

function removeHTMLRE_ReplaceAllString :: "string \<Rightarrow> string" where
  "removeHTMLRE_ReplaceAllString [] = []"
| "removeHTMLRE_ReplaceAllString (c # s) =
     (case removeHTMLRE_match (c # s) of
        Some rest \<Rightarrow> removeHTMLRE_ReplaceAllString rest
      | None \<Rightarrow> c # removeHTMLRE_ReplaceAllString s)"
  by pat_completeness auto
termination
  apply (relation "measure length")
    apply simp
   apply simp
  apply (drule removeHTMLRE_match_shorter)
  apply simp
  done

section \<open>The statistics\<close>

text \<open>
  An \<open>xsync.Counter\<close> holds an \<open>int64\<close>: \<open>Inc\<close> adds one and wraps from \<open>2^63 - 1\<close> to
  \<open>- 2^63\<close>, and \<open>Value\<close> reads the signed value. The four totals of a \<open>stats\<close> are
  64-bit words: \<open>+\<close> wraps, and \<^const>\<open>sint\<close> is the value that \<open>Value\<close> returns.

  An \<open>xsync.Map[string, *xsync.Counter]\<close> is an association list with each key once; its
  order stands for the unspecified order in which \<open>Range\<close> visits the entries. The
  counter of a key is raised by one at a time, and never more often than the universal
  or the swapped total; it is kept as an integer, its value as long as the key was
  counted fewer than \<open>2^63\<close> times. The model is sequential, as \<open>run\<close> processes the
  files one after the other.
\<close>

type_synonym int64 = "64 word"

type_synonym counter_map = "(string \<times> int) list"

record stats =
  count :: int64
  universal :: counter_map
  countSwapped :: int64
  swapped :: counter_map
  countRemoved :: int64
  removed :: counter_map
  countBoth :: int64
  both :: counter_map

definition makeStats :: stats where
  "makeStats = \<lparr>count = 0, universal = [], countSwapped = 0, swapped = [],
                 countRemoved = 0, removed = [], countBoth = 0, both = []\<rparr>"

text \<open>\<open>m.Load(k)\<close>, \<open>m.Store(k, v)\<close> for a key that is absent, and \<open>Inc\<close> of the counter of a key.\<close>

definition Load :: "counter_map \<Rightarrow> string \<Rightarrow> int option" where
  "Load m k = map_of m k"

definition Store_new :: "counter_map \<Rightarrow> string \<Rightarrow> int \<Rightarrow> counter_map" where
  "Store_new m k v = m @ [(k, v)]"

fun Inc_at :: "counter_map \<Rightarrow> string \<Rightarrow> counter_map" where
  "Inc_at [] k = []"
| "Inc_at ((k', v) # m) k = (if k' = k then (k', v + 1) # m else (k', v) # Inc_at m k)"

definition incX :: "counter_map \<Rightarrow> string \<Rightarrow> counter_map" where
  "incX m k =
     (if length k = 0 then m
      else (case Load m k of
              None \<Rightarrow> Inc_at (Store_new m k 0) k
            | Some v \<Rightarrow> Inc_at m k))"

definition inc :: "stats \<Rightarrow> string \<Rightarrow> string \<Rightarrow> bool \<Rightarrow> stats" where
  "inc st raw sw rm =
     (let st1 =
        (if length raw > 0 then
           (let st' = st\<lparr>count := count st + 1, universal := incX (universal st) raw\<rparr> in
            if \<not> rm then st'\<lparr>removed := incX (removed st') raw\<rparr>
            else st'\<lparr>countRemoved := countRemoved st' + 1\<rparr>)
         else st)
      in
        if length sw > 0 then
          (let st2 = st1\<lparr>countSwapped := countSwapped st1 + 1,
                          swapped := incX (swapped st1) sw\<rparr> in
           if \<not> rm then st2\<lparr>countBoth := countBoth st2 + 1, both := incX (both st2) sw\<rparr>
           else st2)
        else st1)"

text \<open>The count a view holds for a key: the value of its counter, 0 when the key is absent.\<close>

definition Value :: "counter_map \<Rightarrow> string \<Rightarrow> int" where
  "Value m k = (case Load m k of None \<Rightarrow> 0 | Some v \<Rightarrow> v)"

text \<open>
  A sequence of \<open>inc\<close> calls on one \<open>stats\<close>, each call given by its three arguments.
\<close>

definition incs :: "stats \<Rightarrow> (string \<times> string \<times> bool) list \<Rightarrow> stats" where
  "incs st calls = foldl (\<lambda>st' (raw, sw, rm). inc st' raw sw rm) st calls"

section \<open>The handler\<close>

datatype nGramSwap = NGramSwap (swap_from: string) (swap_to: string)

record handler =
  removeWords :: "string set"
  swapNGrams :: "nGramSwap list"
  removeHTML :: bool
  words :: stats
  letters :: stats

definition newHandler :: handler where
  "newHandler = \<lparr>removeWords = {}, swapNGrams = [], removeHTML = False,
                  words = makeStats, letters = makeStats\<rparr>"

text \<open>The flag values that the command line binds before \<open>run\<close> is called.\<close>

record flags =
  flagValSwap :: "string list"
  flagValRemove :: "string list"
  flagValRemoveHTML :: bool

datatype error =
  ImproperSwapNGram string
| MustBeTxt string
| CheckingFile string
| OpeningFile string

text \<open>
  \<open>parseFlags\<close> changes the handler in place and returns an error or nil: the model
  returns the handler as it is left and the error, if any. The swaps appended before
  an ill-formed one stay appended.
\<close>

fun parseSwaps :: "(nat \<Rightarrow> nat) \<Rightarrow> string list \<Rightarrow> handler \<Rightarrow> handler \<times> error option" where
  "parseSwaps tab [] h = (h, None)"
| "parseSwaps tab (swap # rest) h =
     (let parts = Split (ToLower tab swap) '','' in
      if length parts \<noteq> 2 then (h, Some (ImproperSwapNGram swap))
      else parseSwaps tab rest
             (h\<lparr>swapNGrams := swapNGrams h @ [NGramSwap (parts ! 0) (parts ! 1)]\<rparr>))"

definition parseFlags :: "(nat \<Rightarrow> nat) \<Rightarrow> flags \<Rightarrow> handler \<Rightarrow> handler \<times> error option" where
  "parseFlags tab fl h =
     (case parseSwaps tab (flagValSwap fl) h of
        (h1, Some e) \<Rightarrow> (h1, Some e)
      | (h1, None) \<Rightarrow>
          (h1\<lparr>removeWords := removeWords h1 \<union> set (flagValRemove fl),
              removeHTML := flagValRemoveHTML fl\<rparr>, None))"

section \<open>Normalizing a line\<close>

text \<open>
  \<open>string(b)\<close> of a byte \<open>b\<close> is the encoding of the rune with that value. The last
  conjunct of \<open>broken\<close> reads \<open>ln[len(ln)-2]\<close> only when the first holds, as \<open>&&\<close> does.
\<close>

definition normalize :: "(nat \<Rightarrow> nat) \<Rightarrow> string \<Rightarrow> bool \<Rightarrow> string list \<times> bool" where
  "normalize tab ln rmHTML =
     (let ln1 = TrimSpace ln in
      if length ln1 = 0 then ([], False)
      else
        (let broken =
               (if length ln1 > 1 \<and> HasSuffix ln1 ''-''
                then EncodeRune (byte (ln1 ! (length ln1 - 2))) \<noteq> []
                else False);
             ln2 = ToLower tab ln1;
             ln3 = TrimSpace ln2;
             ln4 = (if rmHTML
                    then removeHTMLRE_ReplaceAllString (keepCharsAndAnglesRE_ReplaceAllString ln3)
                    else ln3);
             ln5 = keepCharsRE_ReplaceAllString ln4
         in (Fields ln5, broken)))"

section \<open>Counting the words of a line\<close>

text \<open>
  The swap loop assigns \<open>strings.ReplaceAll(word, swap.from, swap.to)\<close> to \<open>swapped\<close> for each
  swap in turn: every swap is applied to \<open>word\<close>.
\<close>

definition swapWord :: "nGramSwap list \<Rightarrow> string \<Rightarrow> string" where
  "swapWord swaps word =
     foldl (\<lambda>sw swap. ReplaceAll word (swap_from swap) (swap_to swap)) word swaps"

text \<open>
  The two loops over the characters of a word: \<open>inc(&h.letters, string(char), "", remove)\<close>
  for each rune of \<open>word\<close>, then \<open>inc(&h.letters, "", string(char), remove)\<close> for each rune
  of \<open>swapped\<close>.
\<close>

definition incRawLetters :: "bool \<Rightarrow> stats \<Rightarrow> string \<Rightarrow> stats" where
  "incRawLetters rm st w = foldl (\<lambda>st' char. inc st' (EncodeRune char) [] rm) st (runes w)"

definition incSwappedLetters :: "bool \<Rightarrow> stats \<Rightarrow> string \<Rightarrow> stats" where
  "incSwappedLetters rm st w = foldl (\<lambda>st' char. inc st' [] (EncodeRune char) rm) st (runes w)"

definition processWord :: "handler \<Rightarrow> string \<Rightarrow> handler" where
  "processWord h word =
     (let sw = swapWord (swapNGrams h) word;
          rm = (word \<in> removeWords h);
          h1 = h\<lparr>words := inc (words h) word sw rm\<rparr>;
          h2 = h1\<lparr>letters := incRawLetters rm (letters h1) word\<rparr>
      in h2\<lparr>letters := incSwappedLetters rm (letters h2) sw\<rparr>)"

definition processLine :: "handler \<Rightarrow> string list \<Rightarrow> handler" where
  "processLine h ln = foldl processWord h ln"

section \<open>Stitching the lines of a file\<close>

text \<open>
  \<open>processFile\<close> reads the file through a \<open>bufio.Scanner\<close> splitting at line ends; the
  model takes the lines the scanner delivers. The loop holds \<open>prev\<close> and \<open>curr\<close> (here \<open>cur\<close>)
  with their flags; one more call after the loop processes \<open>curr\<close>. \<open>prev[len(prev)-1]\<close> and
  \<open>curr[0]\<close> are read under the guards \<open>len(prev) > 0\<close> and \<open>len(curr) > 0\<close>, so no index is
  out of range and the deferred \<open>recover\<close> never finds a panic.
\<close>

fun scanLoop ::
  "(nat \<Rightarrow> nat) \<Rightarrow> handler \<Rightarrow> string list \<Rightarrow> bool \<Rightarrow> string list \<Rightarrow> bool \<Rightarrow> string list
     \<Rightarrow> handler \<times> string list" where
  "scanLoop tab h prev prevBroken cur curBroken [] = (h, cur)"
| "scanLoop tab h prev prevBroken cur curBroken (text # rest) =
     (let stitch = (length prev > 0 \<and> prevBroken \<and> length cur > 0);
          prev1 = (if stitch
                   then prev[length prev - 1 := prev ! (length prev - 1) @ cur ! 0]
                   else prev);
          cur1 = (if stitch then drop 1 cur else cur);
          h1 = (if length prev > 0 then processLine h prev1 else h);
          (cur2, curBroken2) = normalize tab text (removeHTML h1)
      in scanLoop tab h1 cur1 curBroken cur2 curBroken2 rest)"

definition processFile :: "(nat \<Rightarrow> nat) \<Rightarrow> handler \<Rightarrow> string list \<Rightarrow> handler" where
  "processFile tab h file =
     (case scanLoop tab h [] False [] False file of (h1, cur) \<Rightarrow> processLine h1 cur)"

text \<open>
  The token lists handed to \<open>processLine\<close>, in order: the same loop, collecting the
  arguments of the calls instead of making them.
\<close>

fun emittedLoop ::
  "(nat \<Rightarrow> nat) \<Rightarrow> bool \<Rightarrow> string list \<Rightarrow> bool \<Rightarrow> string list \<Rightarrow> bool \<Rightarrow> string list
     \<Rightarrow> string list list" where
  "emittedLoop tab rmHTML prev prevBroken cur curBroken [] = [cur]"
| "emittedLoop tab rmHTML prev prevBroken cur curBroken (text # rest) =
     (let stitch = (length prev > 0 \<and> prevBroken \<and> length cur > 0);
          prev1 = (if stitch
                   then prev[length prev - 1 := prev ! (length prev - 1) @ cur ! 0]
                   else prev);
          cur1 = (if stitch then drop 1 cur else cur);
          (cur2, curBroken2) = normalize tab text rmHTML
      in (if length prev > 0 then [prev1] else [])
           @ emittedLoop tab rmHTML cur1 curBroken cur2 curBroken2 rest)"

definition emitted :: "(nat \<Rightarrow> nat) \<Rightarrow> bool \<Rightarrow> string list \<Rightarrow> string list list" where
  "emitted tab rmHTML file = emittedLoop tab rmHTML [] False [] False file"

section \<open>Ranking and reporting\<close>

datatype unit_t = MkUnit (unit_v: string) (unit_n: int)

text \<open>\<open>strings.Compare\<close> orders strings bytewise.\<close>

definition Compare :: "string \<Rightarrow> string \<Rightarrow> int" where
  "Compare a b = (if a = b then 0 else if a < b then - 1 else 1)"

definition unit_cmp :: "unit_t \<Rightarrow> unit_t \<Rightarrow> int" where
  "unit_cmp a b =
     (let diff = unit_n b - unit_n a in
      if diff \<noteq> 0 then diff else Compare (unit_v a) (unit_v b))"

text \<open>
  \<open>slices.SortFunc\<close> sorts by a comparison function; it is modelled by insertion sort.
  The order of equal elements, which \<open>SortFunc\<close> leaves open, does not arise:
  \<open>unit_cmp\<close> is 0 only for units with the same key and count.
\<close>

fun insert_by :: "('a \<Rightarrow> 'a \<Rightarrow> int) \<Rightarrow> 'a \<Rightarrow> 'a list \<Rightarrow> 'a list" where
  "insert_by cmp x [] = [x]"
| "insert_by cmp x (y # ys) = (if cmp x y \<le> 0 then x # y # ys else y # insert_by cmp x ys)"

definition SortFunc :: "('a \<Rightarrow> 'a \<Rightarrow> int) \<Rightarrow> 'a list \<Rightarrow> 'a list" where
  "SortFunc cmp xs = foldr (insert_by cmp) xs []"

definition toUnitSlice :: "counter_map \<Rightarrow> unit_t list" where
  "toUnitSlice counter = SortFunc unit_cmp (map (\<lambda>(key, val). MkUnit key val) counter)"

text \<open>
  \<open>print\<close> ranks the four views, cuts each to \<open>top\<close> entries when \<open>top > 0\<close> (here \<open>topN\<close>), and writes
  a table. The model keeps what the table is written from: the four lists and the
  four totals of the header; the rendering of a cell (a float percentage and an SI
  prefix) is left out.
\<close>

record report =
  rep_u :: "unit_t list"
  rep_r :: "unit_t list"
  rep_s :: "unit_t list"
  rep_b :: "unit_t list"
  total_raw :: int64
  total_removed :: int64
  total_swapped :: int64
  total_both :: int64

definition cut :: "int \<Rightarrow> unit_t list \<Rightarrow> unit_t list" where
  "cut topN u = (if topN > 0 then (if int (length u) > topN then take (nat topN) u else u) else u)"

definition print :: "stats \<Rightarrow> int \<Rightarrow> report" where
  "print st topN =
     \<lparr>rep_u = cut topN (toUnitSlice (universal st)),
      rep_r = cut topN (toUnitSlice (removed st)),
      rep_s = cut topN (toUnitSlice (swapped st)),
      rep_b = cut topN (toUnitSlice (both st)),
      total_raw = count st,
      total_removed = count st - countRemoved st,
      total_swapped = countSwapped st,
      total_both = countBoth st\<rparr>"

section \<open>Running the command\<close>

text \<open>
  The file system as \<open>run\<close> sees it: whether \<open>os.Stat\<close> finds a path, and the lines of
  the file that \<open>os.Open\<close> opens, if it opens. \<open>run\<close> returns the handler as it is left,
  the file-system calls it made in order, the error if any, and on success the two
  reports it prints (the first ten words, all letters).
\<close>

record world =
  stat_ok :: "string \<Rightarrow> bool"
  open_lines :: "string \<Rightarrow> string list option"

datatype event = Stat string | Open string

record outcome =
  final :: handler
  trace :: "event list"
  failure :: "error option"
  printed :: "(report \<times> report) option"

fun precheck :: "world \<Rightarrow> string list \<Rightarrow> event list \<times> error option" where
  "precheck w [] = ([], None)"
| "precheck w (arg # rest) =
     (if \<not> HasSuffix arg ''.txt'' then ([], Some (MustBeTxt arg))
      else if \<not> stat_ok w arg then ([Stat arg], Some (CheckingFile arg))
      else (case precheck w rest of (evs, e) \<Rightarrow> (Stat arg # evs, e)))"

definition runFile :: "(nat \<Rightarrow> nat) \<Rightarrow> world \<Rightarrow> handler \<Rightarrow> string \<Rightarrow> handler \<times> error option" where
  "runFile tab w h filePath =
     (case open_lines w filePath of
        None \<Rightarrow> (h, Some (OpeningFile filePath))
      | Some file \<Rightarrow> (processFile tab h file, None))"

fun runFiles ::
  "(nat \<Rightarrow> nat) \<Rightarrow> world \<Rightarrow> handler \<Rightarrow> string list \<Rightarrow> handler \<times> event list \<times> error option" where
  "runFiles tab w h [] = (h, [], None)"
| "runFiles tab w h (arg # rest) =
     (case runFile tab w h arg of
        (h1, Some e) \<Rightarrow> (h1, [Open arg], Some e)
      | (h1, None) \<Rightarrow>
          (case runFiles tab w h1 rest of (h2, evs, e) \<Rightarrow> (h2, Open arg # evs, e)))"

definition run :: "(nat \<Rightarrow> nat) \<Rightarrow> flags \<Rightarrow> world \<Rightarrow> handler \<Rightarrow> string list \<Rightarrow> outcome" where
  "run tab fl w h args =
     (case parseFlags tab fl h of
        (h1, Some e) \<Rightarrow> \<lparr>final = h1, trace = [], failure = Some e, printed = None\<rparr>
      | (h1, None) \<Rightarrow>
          (case precheck w args of
             (evs, Some e) \<Rightarrow> \<lparr>final = h1, trace = evs, failure = Some e, printed = None\<rparr>
           | (evs, None) \<Rightarrow>
               (case runFiles tab w h1 args of
                  (h2, evs2, Some e) \<Rightarrow>
                    \<lparr>final = h2, trace = evs @ evs2, failure = Some e, printed = None\<rparr>
                | (h2, evs2, None) \<Rightarrow>
                    \<lparr>final = h2, trace = evs @ evs2, failure = None,
                     printed = Some (print (words h2) 10, print (letters h2) 0)\<rparr>)))"

section \<open>Notions used in the statements\<close>

text \<open>Lower-case ASCII letters and digits; upper-case ASCII letters.\<close>

definition lower_or_digit :: "char \<Rightarrow> bool" where
  "lower_or_digit c \<longleftrightarrow>
     (CHR ''a'' \<le> c \<and> c \<le> CHR ''z'') \<or> (CHR ''0'' \<le> c \<and> c \<le> CHR ''9'')"

definition upper :: "char \<Rightarrow> bool" where
  "upper c \<longleftrightarrow> CHR ''A'' \<le> c \<and> c \<le> CHR ''Z''"





section \<open>Properties of the counters\<close>

lemma map_of_Inc_at:
  "map_of (Inc_at m k) k' =
     (if k' = k then map_option (\<lambda>v. v + 1) (map_of m k) else map_of m k')"
  by (induction m k rule: Inc_at.induct) auto

lemma Value_incX:
  "k \<noteq> [] \<Longrightarrow> Value (incX m k) k' = (if k' = k then Value m k + 1 else Value m k')"
  by (auto simp: Value_def incX_def Load_def Store_new_def map_of_Inc_at split: option.splits)





lemma inc_raw_only:
  "inc st raw [] rm =
     (if raw = [] then st
      else if rm then st\<lparr>count := count st + 1, universal := incX (universal st) raw,
                         countRemoved := countRemoved st + 1\<rparr>
      else st\<lparr>count := count st + 1, universal := incX (universal st) raw,
              removed := incX (removed st) raw\<rparr>)"
  by (simp add: inc_def Let_def)

lemma inc_swapped_only:
  "inc st [] sw rm =
     (if sw = [] then st
      else if rm then st\<lparr>countSwapped := countSwapped st + 1, swapped := incX (swapped st) sw\<rparr>
      else st\<lparr>countSwapped := countSwapped st + 1, swapped := incX (swapped st) sw,
              countBoth := countBoth st + 1, both := incX (both st) sw\<rparr>)"
  by (simp add: inc_def Let_def)

lemma EncodeRune_nonempty: "EncodeRune r \<noteq> []"
  by (simp add: EncodeRune_def)

lemma incRawLetters_fold:
  "foldl (\<lambda>st' char. inc st' (EncodeRune char) [] rm) st rs =
     st\<lparr>count := count st + of_nat (length rs),
        universal := foldl incX (universal st) (map EncodeRune rs),
        countRemoved := (if rm then countRemoved st + of_nat (length rs) else countRemoved st),
        removed := (if rm then removed st else foldl incX (removed st) (map EncodeRune rs))\<rparr>"
proof (induction rs arbitrary: st)
  case Nil
  show ?case by simp
next
  case (Cons r rs)
  have "foldl (\<lambda>st' char. inc st' (EncodeRune char) [] rm) st (r # rs) =
        foldl (\<lambda>st' char. inc st' (EncodeRune char) [] rm) (inc st (EncodeRune r) [] rm) rs"
    by simp
  also note Cons.IH
  finally show ?case
    by (simp add: inc_raw_only EncodeRune_nonempty)
qed

lemma incSwappedLetters_fold:
  "foldl (\<lambda>st' char. inc st' [] (EncodeRune char) rm) st rs =
     st\<lparr>countSwapped := countSwapped st + of_nat (length rs),
        swapped := foldl incX (swapped st) (map EncodeRune rs),
        countBoth := (if rm then countBoth st else countBoth st + of_nat (length rs)),
        both := (if rm then both st else foldl incX (both st) (map EncodeRune rs))\<rparr>"
proof (induction rs arbitrary: st)
  case Nil
  show ?case by simp
next
  case (Cons r rs)
  have "foldl (\<lambda>st' char. inc st' [] (EncodeRune char) rm) st (r # rs) =
        foldl (\<lambda>st' char. inc st' [] (EncodeRune char) rm) (inc st [] (EncodeRune r) rm) rs"
    by simp
  also note Cons.IH
  finally show ?case
    by (simp add: inc_swapped_only EncodeRune_nonempty)
qed

lemma Value_foldl_incX:
  "[] \<notin> set ks \<Longrightarrow> Value (foldl incX m ks) k = Value m k + int (count_list ks k)"
  by (induction ks arbitrary: m) (auto simp: Value_incX)

lemma letters_processWord:
  "letters (processWord h word) =
     (let sw = swapWord (swapNGrams h) word; rm = (word \<in> removeWords h) in
      incSwappedLetters rm (incRawLetters rm (letters h) word) sw)"
  by (simp add: processWord_def Let_def)

lemma words_processWord:
  "words (processWord h word) =
     inc (words h) word (swapWord (swapNGrams h) word) (word \<in> removeWords h)"
  by (simp add: processWord_def Let_def)

lemma sint_inc: "sint x < 2 ^ 63 - 1 \<Longrightarrow> sint (x + 1 :: int64) = sint x + 1"
proof -
  assume a: "sint x < 2 ^ 63 - 1"
  have lo: "- (2 ^ 63) \<le> sint x" using sint_ge[of x] by simp
  have "sint (x + 1) = signed_take_bit 63 (sint x + sint (1 :: int64))"
    by (simp add: sint_word_ariths)
  also have "\<dots> = signed_take_bit 63 (sint x + 1)" by simp
  also have "\<dots> = sint x + 1"
    using a lo by (intro signed_take_bit_int_eq_self) simp_all
  finally show ?thesis .
qed


lemma inc_totals_cases:
  "(countSwapped (inc st raw sw rm) = countSwapped st \<and> countBoth (inc st raw sw rm) = countBoth st) \<or>
   (countSwapped (inc st raw sw rm) = countSwapped st + 1 \<and>
    countBoth (inc st raw sw rm) = countBoth st) \<or>
   (countSwapped (inc st raw sw rm) = countSwapped st + 1 \<and>
    countBoth (inc st raw sw rm) = countBoth st + 1)"
  by (simp add: inc_def Let_def)

lemma inc_both_le_swapped:
  assumes le: "sint (countBoth st) \<le> sint (countSwapped st)"
    and room: "sint (countSwapped st) < 2 ^ 63 - 1"
  shows "sint (countBoth (inc st raw sw rm)) \<le> sint (countSwapped (inc st raw sw rm))"
proof -
  from le room have roomb: "sint (countBoth st) < 2 ^ 63 - 1" by simp
  have s: "sint (countSwapped st + 1) = sint (countSwapped st) + 1"
    using room by (rule sint_inc)
  have b: "sint (countBoth st + 1) = sint (countBoth st) + 1"
    using roomb by (rule sint_inc)
  from inc_totals_cases[of st raw sw rm] show ?thesis
  proof (elim disjE conjE)
    assume "countSwapped (inc st raw sw rm) = countSwapped st"
      and "countBoth (inc st raw sw rm) = countBoth st"
    with le show ?thesis by simp
  next
    assume "countSwapped (inc st raw sw rm) = countSwapped st + 1"
      and "countBoth (inc st raw sw rm) = countBoth st"
    with le s show ?thesis by simp
  next
    assume "countSwapped (inc st raw sw rm) = countSwapped st + 1"
      and "countBoth (inc st raw sw rm) = countBoth st + 1"
    with le s b show ?thesis by simp
  qed
qed

text \<open>
  After \<open>n\<close> calls from fresh statistics the both total is at least 0, at most the swapped
  total, and the swapped total is at most \<open>n\<close>.
\<close>

definition within :: "stats \<Rightarrow> nat \<Rightarrow> bool" where
  "within st n \<longleftrightarrow>
     0 \<le> sint (countBoth st) \<and> sint (countBoth st) \<le> sint (countSwapped st) \<and>
     sint (countSwapped st) \<le> int n"

lemma inc_within:
  assumes w: "within st n" and n: "Suc n < 2 ^ 63"
  shows "within (inc st raw sw rm) (Suc n)"
proof -
  from w have b0: "0 \<le> sint (countBoth st)" and le: "sint (countBoth st) \<le> sint (countSwapped st)"
    and sn: "sint (countSwapped st) \<le> int n"
    by (simp_all add: within_def)
  from n have "int (Suc n) < int (2 ^ 63)" by (simp only: of_nat_less_iff)
  then have "int n < 2 ^ 63 - 1" by simp
  with sn have room: "sint (countSwapped st) < 2 ^ 63 - 1" by simp
  with le have roomb: "sint (countBoth st) < 2 ^ 63 - 1" by simp
  have s: "sint (countSwapped st + 1) = sint (countSwapped st) + 1"
    using room by (rule sint_inc)
  have b: "sint (countBoth st + 1) = sint (countBoth st) + 1"
    using roomb by (rule sint_inc)
  from inc_totals_cases[of st raw sw rm] show ?thesis
  proof (elim disjE conjE)
    assume "countSwapped (inc st raw sw rm) = countSwapped st"
      and "countBoth (inc st raw sw rm) = countBoth st"
    with b0 le sn show ?thesis by (simp add: within_def)
  next
    assume "countSwapped (inc st raw sw rm) = countSwapped st + 1"
      and "countBoth (inc st raw sw rm) = countBoth st"
    with b0 le sn s show ?thesis by (simp add: within_def)
  next
    assume "countSwapped (inc st raw sw rm) = countSwapped st + 1"
      and "countBoth (inc st raw sw rm) = countBoth st + 1"
    with b0 le sn s b show ?thesis by (simp add: within_def)
  qed
qed

lemma incs_within:
  "within st n \<Longrightarrow> n + length calls < 2 ^ 63 \<Longrightarrow> within (incs st calls) (n + length calls)"
proof (induction calls arbitrary: st n)
  case Nil
  then show ?case by (simp add: incs_def)
next
  case (Cons c calls)
  obtain raw sw rm where c: "c = (raw, sw, rm)" by (cases c)
  have step: "incs st (c # calls) = incs (inc st raw sw rm) calls"
    by (simp add: incs_def c)
  from Cons.prems(2) have n: "Suc n < 2 ^ 63" and rest: "Suc n + length calls < 2 ^ 63"
    by simp_all
  from inc_within[OF Cons.prems(1) n] have "within (inc st raw sw rm) (Suc n)" .
  from Cons.IH[OF this rest] show ?case by (simp add: step)
qed

lemma incs_both_le_swapped:
  assumes "length calls < 2 ^ 63"
  shows "sint (countBoth (incs makeStats calls)) \<le> sint (countSwapped (incs makeStats calls))"
proof -
  have "within makeStats 0" by (simp add: within_def makeStats_def)
  from incs_within[OF this, of calls] assms show ?thesis by (simp add: within_def)
qed

lemma incs_replicate_swapped_only:
  "sw \<noteq> [] \<Longrightarrow>
   countSwapped (incs st (replicate n ([], sw, True))) = countSwapped st + of_nat n \<and>
   countBoth (incs st (replicate n ([], sw, True))) = countBoth st"
proof (induction n arbitrary: st)
  case 0
  show ?case by (simp add: incs_def)
next
  case (Suc n)
  have step: "incs st (([], sw, True) # replicate n ([], sw, True)) =
      incs (inc st [] sw True) (replicate n ([], sw, True))"
    by (simp add: incs_def)
  from Suc.prems have i: "countSwapped (inc st [] sw True) = countSwapped st + 1 \<and>
      countBoth (inc st [] sw True) = countBoth st"
    by (simp add: inc_swapped_only)
  from Suc.IH[OF Suc.prems, of "inc st [] sw True"] i show ?case
    by (simp add: step add.assoc)
qed

text \<open>
  C2. A token of the remove set: \<open>processLine\<close> calls \<open>inc\<close> on the words with
  \<open>removed = true\<close>, and that call, for a token that is not empty, raises the universal
  total and the universal count of the token by one, leaves the removed view as it is,
  raises the removed total by one, raises the swapped total and the swapped count of
  the swapped form by one when the swapped form is not empty, and leaves the both view
  and the both total as they are. No other key of the universal or swapped view changes.
\<close>

theorem inc_removed_token:
  assumes "tok \<noteq> []" and "tok \<in> removeWords h"
  shows "words (processWord h tok) = inc (words h) tok (swapWord (swapNGrams h) tok) True \<and>
         count (inc st tok sw True) = count st + 1 \<and>
         Value (universal (inc st tok sw True)) tok = Value (universal st) tok + 1 \<and>
         (\<forall>k. k \<noteq> tok \<longrightarrow> Value (universal (inc st tok sw True)) k = Value (universal st) k) \<and>
         removed (inc st tok sw True) = removed st \<and>
         countRemoved (inc st tok sw True) = countRemoved st + 1 \<and>
         (sw \<noteq> [] \<longrightarrow>
            countSwapped (inc st tok sw True) = countSwapped st + 1 \<and>
            Value (swapped (inc st tok sw True)) sw = Value (swapped st) sw + 1 \<and>
            (\<forall>k. k \<noteq> sw \<longrightarrow> Value (swapped (inc st tok sw True)) k = Value (swapped st) k)) \<and>
         (sw = [] \<longrightarrow>
            countSwapped (inc st tok sw True) = countSwapped st \<and>
            swapped (inc st tok sw True) = swapped st) \<and>
         both (inc st tok sw True) = both st \<and>
         countBoth (inc st tok sw True) = countBoth st"
proof -
  from assms(2) have "words (processWord h tok) =
      inc (words h) tok (swapWord (swapNGrams h) tok) True"
    by (simp add: words_processWord)
  moreover from assms(1) have
    "count (inc st tok sw True) = count st + 1 \<and>
     Value (universal (inc st tok sw True)) tok = Value (universal st) tok + 1 \<and>
     (\<forall>k. k \<noteq> tok \<longrightarrow> Value (universal (inc st tok sw True)) k = Value (universal st) k) \<and>
     removed (inc st tok sw True) = removed st \<and>
     countRemoved (inc st tok sw True) = countRemoved st + 1 \<and>
     (sw \<noteq> [] \<longrightarrow>
        countSwapped (inc st tok sw True) = countSwapped st + 1 \<and>
        Value (swapped (inc st tok sw True)) sw = Value (swapped st) sw + 1 \<and>
        (\<forall>k. k \<noteq> sw \<longrightarrow> Value (swapped (inc st tok sw True)) k = Value (swapped st) k)) \<and>
     (sw = [] \<longrightarrow>
        countSwapped (inc st tok sw True) = countSwapped st \<and>
        swapped (inc st tok sw True) = swapped st) \<and>
     both (inc st tok sw True) = both st \<and>
     countBoth (inc st tok sw True) = countBoth st"
    by (simp add: inc_def Let_def Value_incX)
  ultimately show ?thesis by simp
qed

text \<open>
  The example of C2: with the swap \<open>th\<close> to \<open>x\<close> and \<open>the\<close> in the remove set, the word
  \<open>the\<close> puts \<open>xe\<close> into the swapped view and not into the both view.
\<close>

theorem inc_removed_token_witness:
  "''the'' \<noteq> [] \<and>
   ''the'' \<in> removeWords (newHandler\<lparr>removeWords := {''the''},
                                       swapNGrams := [NGramSwap ''th'' ''x'']\<rparr>) \<and>
   swapWord [NGramSwap ''th'' ''x''] ''the'' = ''xe'' \<and>
   words (processWord (newHandler\<lparr>removeWords := {''the''},
                                   swapNGrams := [NGramSwap ''th'' ''x'']\<rparr>) ''the'')
     = inc makeStats ''the'' ''xe'' True \<and>
   count (inc makeStats ''the'' ''xe'' True) = 1 \<and>
   countRemoved (inc makeStats ''the'' ''xe'' True) = 1 \<and>
   Value (universal (inc makeStats ''the'' ''xe'' True)) ''the'' = 1 \<and>
   removed (inc makeStats ''the'' ''xe'' True) = [] \<and>
   countSwapped (inc makeStats ''the'' ''xe'' True) = 1 \<and>
   Value (swapped (inc makeStats ''the'' ''xe'' True)) ''xe'' = 1 \<and>
   both (inc makeStats ''the'' ''xe'' True) = [] \<and>
   Value (both (inc makeStats ''the'' ''xe'' True)) ''xe'' = 0 \<and>
   countBoth (inc makeStats ''the'' ''xe'' True) = 0"
proof -
  let ?h = "newHandler\<lparr>removeWords := {''the''}, swapNGrams := [NGramSwap ''th'' ''x'']\<rparr>"
  have a: "''the'' \<noteq> []" by simp
  have b: "''the'' \<in> removeWords ?h" by simp
  have sw: "swapWord (swapNGrams ?h) ''the'' = ''xe''"
    by (simp add: swapWord_def ReplaceAll_def)
  have w: "words ?h = makeStats" by (simp add: newHandler_def)
  have z: "Value (universal makeStats) k = 0 \<and> Value (swapped makeStats) k = 0 \<and>
           Value (both makeStats) k = 0 \<and> removed makeStats = [] \<and> both makeStats = [] \<and>
           count makeStats = 0 \<and> countRemoved makeStats = 0 \<and> countSwapped makeStats = 0 \<and>
           countBoth makeStats = 0" for k
    by (simp add: makeStats_def Value_def Load_def)
  have v: "Value [] ''xe'' = 0" by (simp add: Value_def Load_def)
  from inc_removed_token[OF a b, of makeStats "''xe''"] sw w z a b v
  show ?thesis by simp
qed

text \<open>
  C5. A call of \<open>inc\<close> with an empty swapped unit leaves the swapped view, the both view
  and their totals as they are; a call with an empty raw unit leaves the universal
  view, the removed view, the universal total and the removed total as they are. So
  the two loops of \<open>processLine\<close> over the characters count each character once per
  stream: one word raises the universal total of the letters by the number of runes
  of the word and its swapped total by the number of runes of the swapped word, and the
  count of every key in the universal (swapped) view by the number of runes of the
  word (of the swapped word) with that encoding.
\<close>

theorem inc_frame_and_letters_once:
  "swapped (inc st raw [] rm) = swapped st \<and> both (inc st raw [] rm) = both st \<and>
   countSwapped (inc st raw [] rm) = countSwapped st \<and>
   countBoth (inc st raw [] rm) = countBoth st \<and>
   universal (inc st [] sw rm) = universal st \<and> removed (inc st [] sw rm) = removed st \<and>
   count (inc st [] sw rm) = count st \<and> countRemoved (inc st [] sw rm) = countRemoved st \<and>
   count (letters (processWord h word)) = count (letters h) + of_nat (length (runes word)) \<and>
   countSwapped (letters (processWord h word)) =
     countSwapped (letters h) + of_nat (length (runes (swapWord (swapNGrams h) word))) \<and>
   Value (universal (letters (processWord h word))) k =
     Value (universal (letters h)) k + int (count_list (map EncodeRune (runes word)) k) \<and>
   Value (swapped (letters (processWord h word))) k =
     Value (swapped (letters h)) k
       + int (count_list (map EncodeRune (runes (swapWord (swapNGrams h) word))) k)"
proof -
  have ne: "[] \<notin> set (map EncodeRune rs)" for rs
    using EncodeRune_nonempty by (metis (no_types) imageE list.set_map)
  have frame: "swapped (inc st raw [] rm) = swapped st \<and> both (inc st raw [] rm) = both st \<and>
      countSwapped (inc st raw [] rm) = countSwapped st \<and>
      countBoth (inc st raw [] rm) = countBoth st \<and>
      universal (inc st [] sw rm) = universal st \<and> removed (inc st [] sw rm) = removed st \<and>
      count (inc st [] sw rm) = count st \<and> countRemoved (inc st [] sw rm) = countRemoved st"
    by (simp add: inc_raw_only inc_swapped_only)
  have lt: "count (letters (processWord h word)) = count (letters h) + of_nat (length (runes word)) \<and>
      countSwapped (letters (processWord h word)) =
        countSwapped (letters h) + of_nat (length (runes (swapWord (swapNGrams h) word)))"
    by (simp add: letters_processWord Let_def incRawLetters_def incSwappedLetters_def
        incRawLetters_fold incSwappedLetters_fold)
  have lv: "Value (universal (letters (processWord h word))) k =
      Value (universal (letters h)) k + int (count_list (map EncodeRune (runes word)) k) \<and>
    Value (swapped (letters (processWord h word))) k =
      Value (swapped (letters h)) k
        + int (count_list (map EncodeRune (runes (swapWord (swapNGrams h) word))) k)"
    by (simp add: letters_processWord Let_def incRawLetters_def incSwappedLetters_def
        incRawLetters_fold incSwappedLetters_fold Value_foldl_incX[OF ne])
  from frame lt lv show ?thesis by simp
qed

text \<open>
  C6, as the code has it. The claim is that the both total is at most the swapped
  total in every state that calls of \<open>inc\<close> reach from \<open>makeStats\<close>, each call keeping
  it. The totals are \<open>int64\<close> counters: the order holds for \<open>makeStats\<close>; a call of
  \<open>inc\<close> keeps it when the swapped total is below \<open>2^63 - 1\<close> before the call; a call
  that changes the both total raises both totals by one; and so the order holds after
  any sequence of fewer than \<open>2^63\<close> calls from \<open>makeStats\<close>.
\<close>

theorem both_total_le_swapped_total:
  "sint (countBoth makeStats) \<le> sint (countSwapped makeStats) \<and>
   (sint (countBoth st) \<le> sint (countSwapped st) \<and> sint (countSwapped st) < 2 ^ 63 - 1 \<longrightarrow>
      sint (countBoth (inc st raw sw rm)) \<le> sint (countSwapped (inc st raw sw rm))) \<and>
   (countBoth (inc st raw sw rm) \<noteq> countBoth st \<longrightarrow>
      countBoth (inc st raw sw rm) = countBoth st + 1 \<and>
      countSwapped (inc st raw sw rm) = countSwapped st + 1) \<and>
   (length calls < 2 ^ 63 \<longrightarrow>
      sint (countBoth (incs makeStats calls)) \<le> sint (countSwapped (incs makeStats calls)))"
proof -
  have init: "sint (countBoth makeStats) \<le> sint (countSwapped makeStats)"
    by (simp add: makeStats_def)
  have only: "countBoth (inc st raw sw rm) \<noteq> countBoth st \<longrightarrow>
      countBoth (inc st raw sw rm) = countBoth st + 1 \<and>
      countSwapped (inc st raw sw rm) = countSwapped st + 1"
    by (simp add: inc_def Let_def)
  from init only inc_both_le_swapped[of st raw sw rm] incs_both_le_swapped[of calls]
  show ?thesis by blast
qed

theorem both_total_le_swapped_total_witness:
  "sint (countBoth makeStats) \<le> sint (countSwapped makeStats) \<and>
   sint (countSwapped makeStats) < 2 ^ 63 - 1 \<and>
   sint (countBoth (inc makeStats ''a'' ''b'' False))
     \<le> sint (countSwapped (inc makeStats ''a'' ''b'' False)) \<and>
   countBoth (inc makeStats ''a'' ''b'' False) \<noteq> countBoth makeStats \<and>
   countBoth (inc makeStats ''a'' ''b'' False) = countBoth makeStats + 1 \<and>
   countSwapped (inc makeStats ''a'' ''b'' False) = countSwapped makeStats + 1 \<and>
   length [(''a'', ''b'', False), ([], ''c'', True)] < 2 ^ 63 \<and>
   sint (countBoth (incs makeStats [(''a'', ''b'', False), ([], ''c'', True)]))
     \<le> sint (countSwapped (incs makeStats [(''a'', ''b'', False), ([], ''c'', True)])) \<and>
   countBoth (incs makeStats [(''a'', ''b'', False), ([], ''c'', True)]) = 1 \<and>
   countSwapped (incs makeStats [(''a'', ''b'', False), ([], ''c'', True)]) = 2"
proof -
  have r: "sint (countSwapped makeStats) < 2 ^ 63 - 1"
    by (simp add: makeStats_def)
  have c: "countBoth (inc makeStats ''a'' ''b'' False) \<noteq> countBoth makeStats"
    by (simp add: inc_def Let_def makeStats_def)
  have l: "length [(''a'', ''b'', False), ([], ''c'', True)] < 2 ^ 63"
    by simp
  have e: "countBoth (incs makeStats [(''a'', ''b'', False), ([], ''c'', True)]) = 1 \<and>
           countSwapped (incs makeStats [(''a'', ''b'', False), ([], ''c'', True)]) = 2"
    by (simp add: incs_def inc_def Let_def makeStats_def)
  note t = both_total_le_swapped_total[of makeStats "''a''" "''b''" False
      "[(''a'', ''b'', False), ([], ''c'', True)]"]
  from t have i: "sint (countBoth makeStats) \<le> sint (countSwapped makeStats)"
    by (rule conjunct1)
  from t i r have p: "sint (countBoth (inc makeStats ''a'' ''b'' False))
      \<le> sint (countSwapped (inc makeStats ''a'' ''b'' False))"
    by blast
  from t c have q: "countBoth (inc makeStats ''a'' ''b'' False) = countBoth makeStats + 1 \<and>
      countSwapped (inc makeStats ''a'' ''b'' False) = countSwapped makeStats + 1"
    by blast
  from t l have u: "sint (countBoth (incs makeStats [(''a'', ''b'', False), ([], ''c'', True)]))
      \<le> sint (countSwapped (incs makeStats [(''a'', ''b'', False), ([], ''c'', True)]))"
    by blast
  from i r p c q l u e show ?thesis by blast
qed

text \<open>
  Where the claim of C6 fails. With the swapped total at \<open>2^63 - 1\<close> and the both total
  at 0, the call \<open>inc(stats, "", "a", true)\<close> wraps the swapped total to \<open>- 2^63\<close> and
  leaves the both total at 0, which is then the greater. That state is reached from
  \<open>makeStats\<close>: after \<open>2^63\<close> such calls the swapped total is \<open>- 2^63\<close> and the both total 0.
\<close>

theorem both_total_exceeds_swapped_total_after_wrap:
  "sint (countBoth (makeStats\<lparr>countSwapped := 0x7FFFFFFFFFFFFFFF\<rparr>))
     \<le> sint (countSwapped (makeStats\<lparr>countSwapped := 0x7FFFFFFFFFFFFFFF\<rparr>)) \<and>
   \<not> sint (countBoth (inc (makeStats\<lparr>countSwapped := 0x7FFFFFFFFFFFFFFF\<rparr>) [] ''a'' True))
       \<le> sint (countSwapped (inc (makeStats\<lparr>countSwapped := 0x7FFFFFFFFFFFFFFF\<rparr>) [] ''a'' True)) \<and>
   \<not> sint (countBoth (incs makeStats (replicate (2 ^ 63) ([], ''a'', True))))
       \<le> sint (countSwapped (incs makeStats (replicate (2 ^ 63) ([], ''a'', True))))"
proof -
  let ?st = "makeStats\<lparr>countSwapped := 0x7FFFFFFFFFFFFFFF\<rparr>"
  have a: "sint (countBoth ?st) = 0 \<and> sint (countSwapped ?st) = 2 ^ 63 - 1"
    by (simp add: makeStats_def)
  have b: "sint (countBoth (inc ?st [] ''a'' True)) = 0 \<and>
           sint (countSwapped (inc ?st [] ''a'' True)) = - (2 ^ 63)"
    by (simp add: inc_swapped_only makeStats_def)
  have ne: "''a'' \<noteq> []" by simp
  have w: "sint (0 + of_nat (2 ^ 63) :: int64) = - (2 ^ 63)" by simp
  have z: "countSwapped makeStats = 0 \<and> countBoth makeStats = 0"
    by (simp add: makeStats_def)
  from incs_replicate_swapped_only[OF ne, of makeStats "2 ^ 63"] z
  have c: "countSwapped (incs makeStats (replicate (2 ^ 63) ([], ''a'', True))) = 0 + of_nat (2 ^ 63) \<and>
           countBoth (incs makeStats (replicate (2 ^ 63) ([], ''a'', True))) = 0"
    by (simp only:)
  have d: "sint (countBoth (incs makeStats (replicate (2 ^ 63) ([], ''a'', True)))) = 0 \<and>
           sint (countSwapped (incs makeStats (replicate (2 ^ 63) ([], ''a'', True)))) = - (2 ^ 63)"
    using c w by (simp only: sint_0 simp_thms)
  from a b d show ?thesis by (simp only:) simp
qed

section \<open>Properties of normalize\<close>

lemma HasSuffix_hyphen: "HasSuffix s ''-'' \<longleftrightarrow> s \<noteq> [] \<and> last s = CHR ''-''"
proof (cases s rule: rev_cases)
  case Nil
  then show ?thesis by (simp add: HasSuffix_def)
next
  case (snoc ys y)
  then show ?thesis by (auto simp: HasSuffix_def)
qed

lemma TrimRightSpace_Nil: "TrimRightSpace [] = []"
  by (simp add: TrimRightSpace.simps)

lemma TrimRightSpace_keep:
  "s \<noteq> [] \<Longrightarrow> \<not> IsSpace (fst (DecodeLastRuneInString s)) \<Longrightarrow> TrimRightSpace s = s"
  by (subst TrimRightSpace.simps) (auto split: prod.splits)

lemma TrimRightSpace_drop:
  "s \<noteq> [] \<Longrightarrow> IsSpace (fst (DecodeLastRuneInString s)) \<Longrightarrow>
   TrimRightSpace s = TrimRightSpace (take (length s - snd (DecodeLastRuneInString s)) s)"
  by (subst TrimRightSpace.simps) (auto split: prod.splits)

lemmas go_eval =
  normalize_def TrimSpace_def TrimRightSpace_Nil TrimRightSpace_keep TrimRightSpace_drop
  DecodeLastRuneInString_def IsSpace_def byte_def HasSuffix_def ToLower_def Map_runes_def
  EncodeRune_def unicode_ToLower_def char_of_def bit_Suc_0_iff
  keepCharsRE_ReplaceAllString_def keepCharsAndAnglesRE_ReplaceAllString_def alnum_def
  Fields_def Let_def

lemma set_TrimLeftSpace: "set (TrimLeftSpace s) \<subseteq> set s"
proof (induction s rule: TrimLeftSpace.induct)
  case 1
  show ?case by simp
next
  case (2 c s)
  obtain r w where d: "DecodeRuneInString (c # s) = (r, w)"
    by (cases "DecodeRuneInString (c # s)")
  show ?case
  proof (cases "IsSpace r")
    case True
    with 2 d have "set (TrimLeftSpace (drop w (c # s))) \<subseteq> set (drop w (c # s))"
      by (simp del: DecodeRuneInString.simps)
    also have "\<dots> \<subseteq> set (c # s)" by (rule set_drop_subset)
    finally show ?thesis using d True by (simp del: DecodeRuneInString.simps)
  next
    case False
    with d show ?thesis by (simp del: DecodeRuneInString.simps)
  qed
qed

lemma set_TrimRightSpace: "set (TrimRightSpace s) \<subseteq> set s"
proof (induction s rule: TrimRightSpace.induct)
  case (1 s)
  show ?case
  proof (cases "s = []")
    case True
    then show ?thesis by (simp add: TrimRightSpace.simps)
  next
    case ne: False
    obtain r w where d: "DecodeLastRuneInString s = (r, w)"
      by (cases "DecodeLastRuneInString s")
    show ?thesis
    proof (cases "IsSpace r")
      case True
      with 1 ne d have "set (TrimRightSpace (take (length s - w) s)) \<subseteq> set (take (length s - w) s)"
        by simp
      also have "\<dots> \<subseteq> set s" by (rule set_take_subset)
      finally show ?thesis using d True ne by (subst TrimRightSpace.simps) simp
    next
      case False
      with d ne show ?thesis by (subst TrimRightSpace.simps) simp
    qed
  qed
qed

lemma set_TrimSpace: "set (TrimSpace s) \<subseteq> set s"
  unfolding TrimSpace_def using set_TrimRightSpace set_TrimLeftSpace by blast

lemma set_skip_char: "set (skip_char x s) \<subseteq> set s"
  by (cases s) (auto simp: skip_char_def)

lemma set_removeHTMLRE_match:
  assumes "removeHTMLRE_match s = Some rest"
  shows "set rest \<subseteq> set s"
proof -
  from assms obtain s2 s3 g s5 where
    a: "skip_char (CHR '' '') s = CHR ''<'' # s2" and
    b: "s3 = skip_char (CHR ''/'') s2" and
    c: "dropWhile alnum s3 = g # s5" and
    d: "rest = skip_char (CHR '' '') s5"
    by (auto simp: removeHTMLRE_match_def Let_def split: list.splits if_splits)
  have "set rest \<subseteq> set s5" using d set_skip_char by simp
  also have "\<dots> \<subseteq> set (dropWhile alnum s3)" using c by auto
  also have "\<dots> \<subseteq> set s3" using set_dropWhileD by fastforce
  also have "\<dots> \<subseteq> set s2" using b set_skip_char by simp
  also have "\<dots> \<subseteq> set (skip_char (CHR '' '') s)" using a by auto
  also have "\<dots> \<subseteq> set s" by (rule set_skip_char)
  finally show ?thesis .
qed

lemma set_removeHTMLRE_ReplaceAllString: "set (removeHTMLRE_ReplaceAllString s) \<subseteq> set s"
proof (induction s rule: removeHTMLRE_ReplaceAllString.induct)
  case 1
  show ?case by simp
next
  case (2 c s)
  show ?case
  proof (cases "removeHTMLRE_match (c # s)")
    case None
    with 2 show ?thesis by auto
  next
    case (Some rest)
    with 2 have "set (removeHTMLRE_ReplaceAllString rest) \<subseteq> set rest" by simp
    also have "\<dots> \<subseteq> set (c # s)" using Some by (rule set_removeHTMLRE_match)
    finally show ?thesis using Some by simp
  qed
qed

lemma of_char_char_of_small: "n < 256 \<Longrightarrow> of_char (char_of n) = (n::nat)"
  by simp

lemma EncodeRune_upper:
  assumes "c \<in> set (EncodeRune r)" and "upper c"
  shows "0x41 \<le> r \<and> r \<le> 0x5A"
proof -
  have hi: "128 \<le> n \<Longrightarrow> n < 256 \<Longrightarrow> \<not> upper (char_of n)" for n :: nat
    by (simp add: upper_def less_eq_char_def of_char_char_of_small)
  show ?thesis
  proof (cases "r \<le> 0x7F")
    case True
    with assms have "c = char_of r" by (simp add: EncodeRune_def)
    with assms(2) True show ?thesis
      by (simp add: upper_def less_eq_char_def of_char_char_of_small)
  next
    case False
    have "\<not> upper c"
    proof -
      from assms(1) False consider
          "c = char_of (0xC0 + r div 0x40)" "r \<le> 0x7FF"
        | "c = char_of (0x80 + r mod 0x40)"
        | "c = CHR 0xEF" | "c = CHR 0xBF" | "c = CHR 0xBD"
        | "c = char_of (0xE0 + r div 0x1000)" "r \<le> 0xFFFF"
        | "c = char_of (0x80 + (r div 0x40) mod 0x40)"
        | "c = char_of (0xF0 + r div 0x40000)" "r \<le> 0x10FFFF"
        | "c = char_of (0x80 + (r div 0x1000) mod 0x40)"
        by (auto simp: EncodeRune_def split: if_splits)
      then show ?thesis
      proof cases
        case 1 then show ?thesis using hi[of "0xC0 + r div 0x40"] by simp
      next
        case 2 then show ?thesis using hi[of "0x80 + r mod 0x40"] by simp
      next
        case 3 then show ?thesis by (simp add: upper_def)
      next
        case 4 then show ?thesis by (simp add: upper_def)
      next
        case 5 then show ?thesis by (simp add: upper_def)
      next
        case 6 then show ?thesis using hi[of "0xE0 + r div 0x1000"] by simp
      next
        case 7 then show ?thesis using hi[of "0x80 + (r div 0x40) mod 0x40"] by simp
      next
        case 8 then show ?thesis using hi[of "0xF0 + r div 0x40000"] by simp
      next
        case 9 then show ?thesis using hi[of "0x80 + (r div 0x1000) mod 0x40"] by simp
      qed
    qed
    with assms(2) show ?thesis by simp
  qed
qed

lemma ToLower_no_upper:
  assumes tab: "\<And>r. 0x7F < r \<Longrightarrow> \<not> (0x41 \<le> tab r \<and> tab r \<le> 0x5A)"
    and c: "c \<in> set (ToLower tab s)"
  shows "\<not> upper c"
proof
  assume u: "upper c"
  from c obtain r where "c \<in> set (EncodeRune (unicode_ToLower tab r))"
    by (auto simp: ToLower_def Map_runes_def)
  with u have "0x41 \<le> unicode_ToLower tab r \<and> unicode_ToLower tab r \<le> 0x5A"
    using EncodeRune_upper by blast
  then show False using tab[of r]
    by (auto simp: unicode_ToLower_def split: if_splits)
qed


lemma decode_ascii: "byte c < 0x80 \<Longrightarrow> DecodeRuneInString (c # s) = (byte c, 1)"
  by (simp add: Let_def)

lemma Fields_from_ascii:
  assumes "\<forall>c \<in> set s. byte c < 0x80" and "t \<in> set (Fields_from acc s)"
  shows "t \<noteq> [] \<and> set t \<subseteq> set acc \<union> {c \<in> set s. \<not> IsSpace (byte c)}"
  using assms
proof (induction s arbitrary: acc)
  case Nil
  then show ?case by (auto split: if_splits)
next
  case (Cons c s)
  from Cons.prems(1) have d: "DecodeRuneInString (c # s) = (byte c, 1)"
    by (simp add: decode_ascii)
  from Cons.prems(1) have rest: "\<forall>c \<in> set s. byte c < 0x80" by simp
  show ?case
  proof (cases "IsSpace (byte c)")
    case True
    show ?thesis
    proof (cases "acc = []")
      case True
      with \<open>IsSpace (byte c)\<close> d Cons.prems(2) have "t \<in> set (Fields_from [] s)"
        by (simp del: DecodeRuneInString.simps)
      from Cons.IH[OF rest this] show ?thesis by auto
    next
      case False
      with True d Cons.prems(2) have "t = acc \<or> t \<in> set (Fields_from [] s)"
        by (simp del: DecodeRuneInString.simps)
      then show ?thesis
      proof
        assume "t = acc"
        with False show ?thesis by auto
      next
        assume "t \<in> set (Fields_from [] s)"
        from Cons.IH[OF rest this] show ?thesis by auto
      qed
    qed
  next
    case False
    with d Cons.prems(2) have "t \<in> set (Fields_from (acc @ [c]) s)"
      by (simp del: DecodeRuneInString.simps)
    from Cons.IH[OF rest this] False show ?thesis by auto
  qed
qed

lemma alnum_ascii: "alnum c \<or> c = CHR '' '' \<Longrightarrow> byte c < 0x80"
  by (auto simp: alnum_def byte_def less_eq_char_def)

lemma alnum_cases: "alnum c \<Longrightarrow> \<not> upper c \<Longrightarrow> lower_or_digit c"
  by (auto simp: alnum_def upper_def lower_or_digit_def)


section \<open>Properties of the swaps and of plain counting\<close>

lemma Replace_from_absent: "\<not> sublist old s \<Longrightarrow> Replace_from old new s = s"
proof (induction s)
  case Nil
  show ?case by (simp only: Replace_from.simps)
next
  case (Cons c s)
  from Cons.prems have both: "\<not> prefix old (c # s) \<and> \<not> sublist old s"
    by (simp only: sublist_Cons_right de_Morgan_disj simp_thms)
  then have np: "\<not> prefix old (c # s)" and ns: "\<not> sublist old s"
    by (rule conjunct1, rule conjunct2)
  have "Replace_from old new (c # s) = c # Replace_from old new s"
    using np by (simp only: Replace_from.simps if_False simp_thms)
  with Cons.IH[OF ns] show ?case by (simp only:)
qed

lemma ReplaceAll_absent: "\<not> sublist old s \<Longrightarrow> ReplaceAll s old new = s"
proof -
  assume a: "\<not> sublist old s"
  have ne: "old \<noteq> []"
  proof
    assume "old = []"
    with a show False by (simp only: sublist_Nil_left simp_thms)
  qed
  show ?thesis
  proof (cases "old = new")
    case True
    then show ?thesis by (simp only: ReplaceAll_def if_True simp_thms)
  next
    case False
    with ne show ?thesis
      by (simp only: ReplaceAll_def if_False Replace_from_absent[OF a] simp_thms)
  qed
qed


lemma swapWord_last:
  "swaps \<noteq> [] \<Longrightarrow>
   swapWord swaps word = ReplaceAll word (swap_from (last swaps)) (swap_to (last swaps))"
  by (cases swaps rule: rev_cases) (simp_all add: swapWord_def)

lemma swapWord_absent:
  assumes "list_all (\<lambda>sw. \<not> sublist (swap_from sw) word) swaps"
  shows "swapWord swaps word = word"
proof (cases swaps rule: rev_cases)
  case Nil
  then show ?thesis by (simp add: swapWord_def)
next
  case (snoc ys y)
  with assms have "\<not> sublist (swap_from y) word" by simp
  then have "ReplaceAll word (swap_from y) (swap_to y) = word" by (rule ReplaceAll_absent)
  with snoc show ?thesis by (simp add: swapWord_def)
qed



lemma processWord_config:
  "swapNGrams (processWord h w) = swapNGrams h \<and> removeWords (processWord h w) = removeWords h
   \<and> removeHTML (processWord h w) = removeHTML h"
  by (simp add: processWord_def Let_def)






section \<open>The claims about normalize, the swaps and plain counting\<close>

text \<open>
  C7. \<open>normalize\<close> answers \<open>broken = true\<close> exactly when the line, trimmed of white
  space, is longer than one byte and ends in a hyphen. \<open>normalize("co-", false)\<close> is
  \<open>["co"]\<close> with \<open>broken = true\<close>, and \<open>normalize("-", false)\<close> is no token with
  \<open>broken = false\<close>.
\<close>

theorem normalize_broken_iff:
  "snd (normalize tab ln rmHTML) = (1 < length (TrimSpace ln) \<and> last (TrimSpace ln) = CHR ''-'') \<and>
   normalize tab ''co-'' False = ([''co''], True) \<and>
   normalize tab ''-'' False = ([], False)"
proof -
  have "snd (normalize tab ln rmHTML) = (1 < length (TrimSpace ln) \<and> last (TrimSpace ln) = CHR ''-'')"
    by (auto simp: normalize_def Let_def HasSuffix_hyphen EncodeRune_nonempty)
  moreover have "normalize tab ''co-'' False = ([''co''], True)"
    by (simp add: go_eval)
  moreover have "normalize tab ''-'' False = ([], False)"
    by (simp add: go_eval)
  ultimately show ?thesis by simp
qed

text \<open>
  C10. Every token that \<open>normalize\<close> returns, with the HTML mode on or off, is not empty
  and consists of lower-case ASCII letters and digits only: it holds no blank, no
  hyphen, no angle bracket, no upper-case letter and no byte above \<open>0x7F\<close>. The
  hypothesis is on the case table of the Go library, the parameter \<open>tab\<close>: the lower
  case of a rune above \<open>0x7F\<close> is never one of \<open>A\<close> to \<open>Z\<close>.
\<close>

theorem normalize_tokens_lower_alnum:
  assumes tab: "\<And>r. 0x7F < r \<Longrightarrow> \<not> (0x41 \<le> tab r \<and> tab r \<le> 0x5A)"
    and t: "t \<in> set (fst (normalize tab ln rmHTML))"
  shows "t \<noteq> [] \<and> list_all lower_or_digit t \<and>
         CHR '' '' \<notin> set t \<and> CHR ''-'' \<notin> set t \<and> CHR ''<'' \<notin> set t \<and> CHR ''>'' \<notin> set t \<and>
         list_all (\<lambda>c. \<not> upper c \<and> byte c < 0x80) t"
proof -
  define ln1 where "ln1 = TrimSpace ln"
  define ln3 where "ln3 = TrimSpace (ToLower tab ln1)"
  define ln4 where "ln4 = (if rmHTML
      then removeHTMLRE_ReplaceAllString (keepCharsAndAnglesRE_ReplaceAllString ln3) else ln3)"
  define ln5 where "ln5 = keepCharsRE_ReplaceAllString ln4"
  from t have tf: "t \<in> set (Fields_from [] ln5)"
    by (auto simp: normalize_def Let_def Fields_def ln1_def ln3_def ln4_def ln5_def
        split: if_splits)
  have k5: "\<forall>c \<in> set ln5. alnum c \<or> c = CHR '' ''"
    by (simp add: ln5_def keepCharsRE_ReplaceAllString_def)
  then have a5: "\<forall>c \<in> set ln5. byte c < 0x80"
    using alnum_ascii by blast
  have s4: "set ln4 \<subseteq> set ln3"
  proof (cases rmHTML)
    case True
    have "set ln4 \<subseteq> set (keepCharsAndAnglesRE_ReplaceAllString ln3)"
      using True set_removeHTMLRE_ReplaceAllString by (simp add: ln4_def)
    also have "\<dots> \<subseteq> set ln3" by (auto simp: keepCharsAndAnglesRE_ReplaceAllString_def)
    finally show ?thesis .
  next
    case False
    then show ?thesis by (simp add: ln4_def)
  qed
  have s5: "set ln5 \<subseteq> set (ToLower tab ln1)"
  proof -
    have "set ln5 \<subseteq> set ln4" by (auto simp: ln5_def keepCharsRE_ReplaceAllString_def)
    also note s4
    also have "set ln3 \<subseteq> set (ToLower tab ln1)" unfolding ln3_def by (rule set_TrimSpace)
    finally show ?thesis .
  qed
  from Fields_from_ascii[OF a5 tf]
  have ne: "t \<noteq> []" and sub: "set t \<subseteq> {c \<in> set ln5. \<not> IsSpace (byte c)}" by auto
  have each: "lower_or_digit c \<and> \<not> upper c \<and> byte c < 0x80" if "c \<in> set t" for c
  proof -
    from that sub have c5: "c \<in> set ln5" and ns: "\<not> IsSpace (byte c)" by auto
    from ns have "c \<noteq> CHR '' ''" by (auto simp: IsSpace_def byte_def)
    with k5 c5 have al: "alnum c" by auto
    from c5 s5 have "c \<in> set (ToLower tab ln1)" by auto
    then have nu: "\<not> upper c" using tab ToLower_no_upper by blast
    with al have "lower_or_digit c" by (rule alnum_cases)
    with nu a5 c5 show ?thesis by simp
  qed
  then have lod: "list_all lower_or_digit t" and asc: "list_all (\<lambda>c. \<not> upper c \<and> byte c < 0x80) t"
    by (simp_all add: list_all_iff)
  have no: "\<not> lower_or_digit (CHR '' '')" "\<not> lower_or_digit (CHR ''-'')"
    "\<not> lower_or_digit (CHR ''<'')" "\<not> lower_or_digit (CHR ''>'')"
    by (simp_all add: lower_or_digit_def)
  from each no have "CHR '' '' \<notin> set t \<and> CHR ''-'' \<notin> set t \<and> CHR ''<'' \<notin> set t \<and> CHR ''>'' \<notin> set t"
    by blast
  with ne lod asc show ?thesis by simp
qed

theorem normalize_tokens_lower_alnum_witness:
  "fst (normalize (\<lambda>r. r) ''A <b>Bold</b> Word-'' True) = [''aboldword''] \<and>
   fst (normalize (\<lambda>r. r) ''Hello, World!'' False) = [''hello'', ''world''] \<and>
   ''aboldword'' \<noteq> [] \<and> list_all lower_or_digit ''aboldword'' \<and>
   ''world'' \<noteq> [] \<and> list_all lower_or_digit ''world'' \<and> CHR ''-'' \<notin> set ''world''"
proof -
  have tab: "\<And>r::nat. 0x7F < r \<Longrightarrow> \<not> (0x41 \<le> (\<lambda>r. r) r \<and> (\<lambda>r. r) r \<le> 0x5A)"
    by simp
  have n1: "fst (normalize (\<lambda>r. r) ''A <b>Bold</b> Word-'' True) = [''aboldword'']"
    by (simp add: go_eval removeHTMLRE_match_def skip_char_def)
  have n2: "fst (normalize (\<lambda>r. r) ''Hello, World!'' False) = [''hello'', ''world'']"
    by (simp add: go_eval)
  have t1: "''aboldword'' \<in> set (fst (normalize (\<lambda>r. r) ''A <b>Bold</b> Word-'' True))"
    by (simp only: n1) simp
  have t2: "''world'' \<in> set (fst (normalize (\<lambda>r. r) ''Hello, World!'' False))"
    by (simp only: n2) simp
  from normalize_tokens_lower_alnum[of "\<lambda>r. r", OF tab t1]
    normalize_tokens_lower_alnum[of "\<lambda>r. r", OF tab t2] n1 n2
  show ?thesis by simp
qed

text \<open>
  C3. With at least one swap configured, the swapped form of a token is the
  \<open>ReplaceAll\<close> of the last swap applied to the token itself, whatever the swaps before
  it did; it is the token when the pattern of no swap occurs in it. With the single
  swap \<open>th\<close> to \<open>x\<close>, \<open>the\<close> becomes \<open>xe\<close>. This swapped form is the one \<open>processLine\<close> counts.
\<close>

theorem swapped_form_is_last_swap:
  assumes "swaps \<noteq> []"
  shows "swapWord swaps word = ReplaceAll word (swap_from (last swaps)) (swap_to (last swaps)) \<and>
         (list_all (\<lambda>sw. \<not> sublist (swap_from sw) word) swaps \<longrightarrow> swapWord swaps word = word) \<and>
         swapWord [NGramSwap ''th'' ''x''] ''the'' = ''xe'' \<and>
         words (processWord h word) =
           inc (words h) word (swapWord (swapNGrams h) word) (word \<in> removeWords h)"
proof -
  have "swapWord [NGramSwap ''th'' ''x''] ''the'' = ''xe''"
    by (simp add: swapWord_def ReplaceAll_def)
  with swapWord_last[OF assms, of word] swapWord_absent[of word swaps] words_processWord[of h word]
  show ?thesis by simp
qed

text \<open>
  Two swaps on \<open>the\<close>: the result is that of the second swap on \<open>the\<close>, not that of the
  second swap on the output of the first.
\<close>

theorem swapped_form_is_last_swap_witness:
  "[NGramSwap ''th'' ''x'', NGramSwap ''e'' ''3''] \<noteq> [] \<and>
   swapWord [NGramSwap ''th'' ''x'', NGramSwap ''e'' ''3''] ''the'' = ReplaceAll ''the'' ''e'' ''3'' \<and>
   ReplaceAll ''the'' ''e'' ''3'' = ''th3'' \<and>
   ReplaceAll (ReplaceAll ''the'' ''th'' ''x'') ''e'' ''3'' = ''x3'' \<and>
   list_all (\<lambda>sw. \<not> sublist (swap_from sw) ''the'') [NGramSwap ''q'' ''x'', NGramSwap ''ee'' ''3''] \<and>
   swapWord [NGramSwap ''q'' ''x'', NGramSwap ''ee'' ''3''] ''the'' = ''the''"
proof -
  have a: "[NGramSwap ''th'' ''x'', NGramSwap ''e'' ''3''] \<noteq> []" by simp
  have b: "[NGramSwap ''q'' ''x'', NGramSwap ''ee'' ''3''] \<noteq> []" by simp
  have c: "list_all (\<lambda>sw. \<not> sublist (swap_from sw) ''the'')
             [NGramSwap ''q'' ''x'', NGramSwap ''ee'' ''3'']"
    by (simp add: sublist_Cons_right)
  have d: "ReplaceAll ''the'' ''e'' ''3'' = ''th3'' \<and>
           ReplaceAll (ReplaceAll ''the'' ''th'' ''x'') ''e'' ''3'' = ''x3'' \<and>
           ReplaceAll ''the'' ''ee'' ''3'' = ''the''"
    by (simp add: ReplaceAll_def)
  from swapped_form_is_last_swap[OF a, of "''the''"] swapped_form_is_last_swap[OF b, of "''the''"]
    c d
  show ?thesis by simp
qed



section \<open>Properties of the line loop, the ranking and the flags\<close>

lemma removeHTML_processWord: "removeHTML (processWord h w) = removeHTML h"
  by (simp add: processWord_def Let_def)

lemma removeHTML_processLine: "removeHTML (processLine h ws) = removeHTML h"
  unfolding processLine_def
  by (induction ws arbitrary: h) (simp_all add: removeHTML_processWord)

lemma emittedLoop_nonempty: "emittedLoop tab rm prev pb cur cb lns \<noteq> []"
  by (induction lns arbitrary: prev pb cur cb) (simp_all add: Let_def split: prod.splits)

lemma scanLoop_emittedLoop:
  "scanLoop tab h prev pb cur cb lns =
     (foldl processLine h (butlast (emittedLoop tab (removeHTML h) prev pb cur cb lns)),
      last (emittedLoop tab (removeHTML h) prev pb cur cb lns))"
proof (induction lns arbitrary: h prev pb cur cb)
  case Nil
  show ?case by simp
next
  case (Cons ln rest)
  define stitch where "stitch = (length prev > 0 \<and> pb \<and> length cur > 0)"
  define prev1 where
    "prev1 = (if stitch then prev[length prev - 1 := prev ! (length prev - 1) @ cur ! 0] else prev)"
  define cur1 where "cur1 = (if stitch then drop 1 cur else cur)"
  define h1 where "h1 = (if length prev > 0 then processLine h prev1 else h)"
  obtain cur2 cb2 where n: "normalize tab ln (removeHTML h) = (cur2, cb2)"
    by (cases "normalize tab ln (removeHTML h)")
  have rh: "removeHTML h1 = removeHTML h"
    by (simp add: h1_def removeHTML_processLine)
  let ?E = "emittedLoop tab (removeHTML h) cur1 cb cur2 cb2 rest"
  have ne: "?E \<noteq> []" by (rule emittedLoop_nonempty)
  have em: "emittedLoop tab (removeHTML h) prev pb cur cb (ln # rest) =
      (if length prev > 0 then [prev1] else []) @ ?E"
    by (simp add: Let_def n stitch_def prev1_def cur1_def)
  have sc: "scanLoop tab h prev pb cur cb (ln # rest) = scanLoop tab h1 cur1 cb cur2 cb2 rest"
    using n rh by (simp add: Let_def stitch_def prev1_def cur1_def h1_def removeHTML_processLine)
  have "scanLoop tab h1 cur1 cb cur2 cb2 rest = (foldl processLine h1 (butlast ?E), last ?E)"
    using Cons.IH[of h1 cur1 cb cur2 cb2] rh by simp
  also have "foldl processLine h1 (butlast ?E) =
      foldl processLine h ((if length prev > 0 then [prev1] else []) @ butlast ?E)"
    by (simp add: h1_def)
  finally show ?case
    unfolding sc em using ne by (simp add: butlast_append)
qed

lemma processFile_emitted:
  "processFile tab h lns = foldl processLine h (emitted tab (removeHTML h) lns)"
proof -
  let ?e = "emittedLoop tab (removeHTML h) [] False [] False lns"
  have "processFile tab h lns = processLine (foldl processLine h (butlast ?e)) (last ?e)"
    by (simp add: processFile_def scanLoop_emittedLoop)
  also have "\<dots> = foldl processLine h (butlast ?e @ [last ?e])"
    by simp
  also have "butlast ?e @ [last ?e] = ?e"
    using emittedLoop_nonempty by simp
  finally show ?thesis by (simp add: emitted_def)
qed























lemma length_Split_from_comma:
  "length (Split_from '','' acc s) = Suc (count_list s (CHR '',''))"
  by (induction s arbitrary: acc) auto

lemma length_Split_comma: "length (Split s '','') = Suc (count_list s (CHR '',''))"
  by (simp add: Split_def length_Split_from_comma)

lemma parseSwaps_stats:
  "words (fst (parseSwaps tab swaps h)) = words h \<and>
   letters (fst (parseSwaps tab swaps h)) = letters h"
  by (induction swaps arbitrary: h) (simp_all add: Let_def)

lemma parseSwaps_error_iff:
  "snd (parseSwaps tab swaps h) \<noteq> None \<longleftrightarrow>
     list_ex (\<lambda>swap. length (Split (ToLower tab swap) '','') \<noteq> 2) swaps"
  by (induction swaps arbitrary: h) (simp_all add: Let_def)

lemma parseSwaps_error_kind:
  "snd (parseSwaps tab swaps h) = Some e \<Longrightarrow>
   \<exists>swap. e = ImproperSwapNGram swap \<and> length (Split (ToLower tab swap) '','') \<noteq> 2"
  by (induction swaps arbitrary: h) (auto simp: Let_def split: if_splits)

lemma parseFlags_error_iff:
  "snd (parseFlags tab fl h) \<noteq> None \<longleftrightarrow>
     list_ex (\<lambda>swap. length (Split (ToLower tab swap) '','') \<noteq> 2) (flagValSwap fl)"
proof -
  have "snd (parseFlags tab fl h) = snd (parseSwaps tab (flagValSwap fl) h)"
    by (simp add: parseFlags_def split: prod.splits option.splits)
  then show ?thesis by (simp only: parseSwaps_error_iff)
qed

lemma parseFlags_error_kind:
  "snd (parseFlags tab fl h) = Some e \<Longrightarrow>
   \<exists>swap. e = ImproperSwapNGram swap \<and> length (Split (ToLower tab swap) '','') \<noteq> 2"
proof -
  have "snd (parseFlags tab fl h) = snd (parseSwaps tab (flagValSwap fl) h)"
    by (simp add: parseFlags_def split: prod.splits option.splits)
  then show "snd (parseFlags tab fl h) = Some e \<Longrightarrow> ?thesis"
    using parseSwaps_error_kind by metis
qed

lemma parseFlags_stats:
  "words (fst (parseFlags tab fl h)) = words h \<and> letters (fst (parseFlags tab fl h)) = letters h"
proof (cases "parseSwaps tab (flagValSwap fl) h")
  case (Pair h1 e)
  with parseSwaps_stats[of tab "flagValSwap fl" h] show ?thesis
    by (cases e) (simp_all add: parseFlags_def)
qed

lemma run_parse_error:
  assumes "snd (parseFlags tab fl h) = Some e"
  shows "run tab fl w h args =
           \<lparr>final = fst (parseFlags tab fl h), trace = [], failure = Some e, printed = None\<rparr>"
proof (cases "parseFlags tab fl h")
  case (Pair h1 e')
  with assms have "e' = Some e" by simp
  with Pair show ?thesis by (simp add: run_def)
qed

section \<open>The claims about the line loop, the ranking and the flags\<close>

text \<open>
  C1. The claim: every non-empty line's tokens are emitted once and in order, a broken
  line stitched to the next, and the file of the two lines \<open>Won-\<close> and \<open>der land\<close> emits
  \<open>wonder\<close>, \<open>land\<close>. The code at that file: the loop body never calls \<open>processLine\<close>,
  since \<open>prev\<close> is empty in both rounds; after the loop \<open>prev\<close> holds \<open>won\<close> and \<open>curr\<close> holds
  \<open>der\<close>, \<open>land\<close>, and the one call after the loop processes \<open>curr\<close> only. So the tokens
  counted are \<open>der\<close> and \<open>land\<close>, and \<open>won\<close> is counted nowhere. With a third line \<open>x\<close> the
  first two lines are stitched and emitted as \<open>wonder\<close>, and the rest of the second
  line, \<open>land\<close>, is lost: the line before the last is never processed.
\<close>

theorem processFile_drops_line_before_last:
  "emitted tab False [''Won-'', ''der land''] = [[''der'', ''land'']] \<and>
   processFile tab newHandler [''Won-'', ''der land''] = processLine newHandler [''der'', ''land''] \<and>
   words (processFile tab newHandler [''Won-'', ''der land'']) =
     \<lparr>count = 2, universal = [(''der'', 1), (''land'', 1)], countSwapped = 2,
      swapped = [(''der'', 1), (''land'', 1)], countRemoved = 0,
      removed = [(''der'', 1), (''land'', 1)], countBoth = 2,
      both = [(''der'', 1), (''land'', 1)]\<rparr> \<and>
   Value (universal (words (processFile tab newHandler [''Won-'', ''der land'']))) ''wonder'' = 0 \<and>
   Value (universal (words (processFile tab newHandler [''Won-'', ''der land'']))) ''won'' = 0 \<and>
   emitted tab False [''Won-'', ''der land'', ''x''] = [[''wonder''], [''x'']]"
proof -
  have n1: "normalize tab ''Won-'' False = ([''won''], True)"
    by (simp add: go_eval)
  have n2: "normalize tab ''der land'' False = ([''der'', ''land''], False)"
    by (simp add: go_eval)
  have n3: "normalize tab ''x'' False = ([''x''], False)"
    by (simp add: go_eval)
  have e2: "emitted tab False [''Won-'', ''der land''] = [[''der'', ''land'']]"
    by (simp add: emitted_def n1 n2)
  have e3: "emitted tab False [''Won-'', ''der land'', ''x''] = [[''wonder''], [''x'']]"
    by (simp add: emitted_def n1 n2 n3)
  have rh: "removeHTML newHandler = False"
    by (simp add: newHandler_def)
  have pf: "processFile tab newHandler [''Won-'', ''der land''] =
      processLine newHandler [''der'', ''land'']"
    by (simp add: processFile_emitted rh e2)
  have w2: "words (processLine newHandler [''der'', ''land'']) =
     \<lparr>count = 2, universal = [(''der'', 1), (''land'', 1)], countSwapped = 2,
      swapped = [(''der'', 1), (''land'', 1)], countRemoved = 0,
      removed = [(''der'', 1), (''land'', 1)], countBoth = 2,
      both = [(''der'', 1), (''land'', 1)]\<rparr>"
    by (simp add: processLine_def words_processWord processWord_config newHandler_def
        swapWord_def inc_def incX_def Load_def Store_new_def makeStats_def Let_def)
  have v: "Value [(''der'', 1), (''land'', 1)] ''wonder'' = 0 \<and>
           Value [(''der'', 1), (''land'', 1)] ''won'' = 0"
    by (simp add: Value_def Load_def)
  from e2 e3 pf w2 v show ?thesis by simp
qed



text \<open>
  C9. \<open>parseFlags\<close> returns an error exactly when some swap specification, lowered and
  split at commas, does not give two parts, that is, does not hold exactly one comma.
  The error names that specification. \<open>run\<close> then returns the error at once: it has
  called neither \<open>os.Stat\<close> nor \<open>os.Open\<close>, prints nothing, and the statistics of the
  words and of the letters are as they were.
\<close>

theorem malformed_swap_aborts_before_files:
  "(snd (parseFlags tab fl h) \<noteq> None) =
     list_ex (\<lambda>swap. length (Split (ToLower tab swap) '','') \<noteq> 2) (flagValSwap fl) \<and>
   (length (Split s '','') \<noteq> 2) = (count_list s (CHR '','') \<noteq> 1) \<and>
   (snd (parseFlags tab fl h) = Some e \<longrightarrow>
      (\<exists>swap. e = ImproperSwapNGram swap \<and> count_list (ToLower tab swap) (CHR '','') \<noteq> 1) \<and>
      failure (run tab fl w h args) = Some e \<and>
      trace (run tab fl w h args) = [] \<and>
      printed (run tab fl w h args) = None \<and>
      words (final (run tab fl w h args)) = words h \<and>
      letters (final (run tab fl w h args)) = letters h)"
proof -
  have cnt: "(length (Split x '','') \<noteq> 2) = (count_list x (CHR '','') \<noteq> 1)" for x
    by (simp add: length_Split_comma)
  have err: "snd (parseFlags tab fl h) = Some e \<longrightarrow>
      (\<exists>swap. e = ImproperSwapNGram swap \<and> count_list (ToLower tab swap) (CHR '','') \<noteq> 1) \<and>
      failure (run tab fl w h args) = Some e \<and>
      trace (run tab fl w h args) = [] \<and>
      printed (run tab fl w h args) = None \<and>
      words (final (run tab fl w h args)) = words h \<and>
      letters (final (run tab fl w h args)) = letters h"
  proof
    assume a: "snd (parseFlags tab fl h) = Some e"
    from parseFlags_error_kind[OF a] cnt
    have k: "\<exists>swap. e = ImproperSwapNGram swap \<and> count_list (ToLower tab swap) (CHR '','') \<noteq> 1"
      by blast
    from run_parse_error[OF a, of w args] parseFlags_stats[of tab fl h] k
    show "(\<exists>swap. e = ImproperSwapNGram swap \<and> count_list (ToLower tab swap) (CHR '','') \<noteq> 1) \<and>
      failure (run tab fl w h args) = Some e \<and>
      trace (run tab fl w h args) = [] \<and>
      printed (run tab fl w h args) = None \<and>
      words (final (run tab fl w h args)) = words h \<and>
      letters (final (run tab fl w h args)) = letters h"
      by simp
  qed
  from parseFlags_error_iff[of tab fl h] cnt[of s] err show ?thesis by blast
qed

theorem malformed_swap_aborts_before_files_witness:
  "snd (parseFlags (\<lambda>r. r)
          \<lparr>flagValSwap = [''TH,x'', ''a,b,c''], flagValRemove = [''the''], flagValRemoveHTML = True\<rparr>
          newHandler) = Some (ImproperSwapNGram ''a,b,c'') \<and>
   count_list ''a,b,c'' (CHR '','') = 2 \<and>
   failure (run (\<lambda>r. r)
          \<lparr>flagValSwap = [''TH,x'', ''a,b,c''], flagValRemove = [''the''], flagValRemoveHTML = True\<rparr>
          \<lparr>stat_ok = \<lambda>p. True, open_lines = \<lambda>p. Some [''to be'']\<rparr> newHandler [''a.txt''])
     = Some (ImproperSwapNGram ''a,b,c'') \<and>
   trace (run (\<lambda>r. r)
          \<lparr>flagValSwap = [''TH,x'', ''a,b,c''], flagValRemove = [''the''], flagValRemoveHTML = True\<rparr>
          \<lparr>stat_ok = \<lambda>p. True, open_lines = \<lambda>p. Some [''to be'']\<rparr> newHandler [''a.txt'']) = [] \<and>
   words (final (run (\<lambda>r. r)
          \<lparr>flagValSwap = [''TH,x'', ''a,b,c''], flagValRemove = [''the''], flagValRemoveHTML = True\<rparr>
          \<lparr>stat_ok = \<lambda>p. True, open_lines = \<lambda>p. Some [''to be'']\<rparr> newHandler [''a.txt'']))
     = makeStats"
proof -
  let ?fl = "\<lparr>flagValSwap = [''TH,x'', ''a,b,c''], flagValRemove = [''the''],
              flagValRemoveHTML = True\<rparr>"
  have p: "parseFlags (\<lambda>r. r) ?fl newHandler =
      (newHandler\<lparr>swapNGrams := [NGramSwap ''th'' ''x'']\<rparr>, Some (ImproperSwapNGram ''a,b,c''))"
    by (simp add: parseFlags_def newHandler_def Let_def Split_def ToLower_def Map_runes_def
        EncodeRune_def unicode_ToLower_def byte_def char_of_def bit_Suc_0_iff)
  then have a: "snd (parseFlags (\<lambda>r. r) ?fl newHandler) = Some (ImproperSwapNGram ''a,b,c'')"
    by simp
  have c: "count_list ''a,b,c'' (CHR '','') = 2" by simp
  have w: "words newHandler = makeStats" by (simp add: newHandler_def)
  from malformed_swap_aborts_before_files[of "\<lambda>r. r" ?fl newHandler "''a,b,c''"
      "ImproperSwapNGram ''a,b,c''"
      "\<lparr>stat_ok = \<lambda>p. True, open_lines = \<lambda>p. Some [''to be'']\<rparr>" "[''a.txt'']"] a c w
  show ?thesis by simp
qed

end
